theory Spec2Isabelle
  imports Main "HOL-Library.Word"
begin

unbundle bit_operations_syntax

section \<open>Device identity: system_info.cc, the UDID manager\<close>

subsection \<open>The persistent store\<close>

text \<open>
  The NVS flash store is an external collaborator of \<^verbatim>\<open>system_info.cc\<close>. Its contents
  are a partial map from (namespace, key) to the bytes that \<^verbatim>\<open>nvs_get_str\<close> hands
  back for that key, terminator included: storing the C string \<^verbatim>\<open>"ab"\<close> leaves the three
  bytes \<^verbatim>\<open>a b NUL\<close>, and the length the store reports is 3.

  Next to the contents the state keeps two histories, so that theorems can speak about what
  a call did: every \<^verbatim>\<open>nvs_set_str\<close> call issued (handle, key, value, whether it returned
  \<^verbatim>\<open>ESP_OK\<close>), and every \<^verbatim>\<open>ESP_LOGI\<close> line of \<^verbatim>\<open>InitializeUdid\<close> (hardware token,
  device id, source tag).
\<close>

type_synonym nvs_data = "string \<times> string \<Rightarrow> string option"

record nvs =
  entries :: nvs_data
  set_calls :: "(string \<times> string \<times> string \<times> bool) list"
  log_lines :: "(string \<times> string \<times> string) list"

definition NUL :: char where
  "NUL = CHR 0x00"

definition kUdidNamespace :: string where
  "kUdidNamespace = ''device''"

definition kUdidKey :: string where
  "kUdidKey = ''udid''"

definition kWifiNamespace :: string where
  "kWifiNamespace = ''wifi''"

definition kMaxWifiSsidCount :: nat where
  "kMaxWifiSsidCount = 10"

text \<open>
  Every NVS call returns an \<^verbatim>\<open>esp_err_t\<close> chosen by the store. The status of each call
  site is an input of the model: \<open>True\<close> stands for "the store does not fail here". A read
  of a key still returns an error when the key is absent, whatever the status says.
  One record per helper of the source, one field per NVS call whose status the helper tests.
\<close>

record read_status =
  rd_open :: bool
  rd_size :: bool
  rd_get :: bool

record write_status =
  wr_open :: bool
  wr_set :: bool

record wifi_status =
  wf_open :: bool
  wf_size :: "nat \<Rightarrow> bool"

record init_status =
  in_read :: read_status
  in_wifi :: wifi_status
  in_write :: write_status
  in_reread :: read_status

record call_status =
  ca_read :: read_status
  ca_init :: init_status
  ca_reread :: read_status

text \<open>
  Modelled from the spec: the store operations of section 6 (\<^verbatim>\<open>open\<close>,
  \<^verbatim>\<open>get_string\<close>, \<^verbatim>\<open>set_string\<close>), which live in the ESP-IDF library and not in this
  repository. A handle is the namespace it was opened on. \<^verbatim>\<open>nvs_get_str\<close> with a null
  buffer reports the stored length; with a buffer it delivers the stored bytes.
  \<^verbatim>\<open>nvs_set_str\<close> stores the C string it is given, up to its first NUL, and the
  terminator. \<^verbatim>\<open>nvs_commit\<close> and \<^verbatim>\<open>nvs_close\<close> return nothing the source looks at.
\<close>

definition nvs_open :: "bool \<Rightarrow> string \<Rightarrow> string option" where
  "nvs_open ok ns = (if ok then Some ns else None)"

definition nvs_get_str_size :: "bool \<Rightarrow> nvs_data \<Rightarrow> string \<Rightarrow> string \<Rightarrow> nat option" where
  "nvs_get_str_size ok d h key = (if ok then map_option length (d (h, key)) else None)"

definition nvs_get_str :: "bool \<Rightarrow> nvs_data \<Rightarrow> string \<Rightarrow> string \<Rightarrow> string option" where
  "nvs_get_str ok d h key = (if ok then d (h, key) else None)"

definition c_str :: "string \<Rightarrow> string" where
  "c_str v = takeWhile (\<lambda>c. c \<noteq> NUL) v"

definition nvs_set_str :: "bool \<Rightarrow> string \<Rightarrow> string \<Rightarrow> string \<Rightarrow> nvs \<Rightarrow> bool \<times> nvs" where
  "nvs_set_str ok h key v s =
     (ok, s\<lparr>entries := (if ok then (entries s)((h, key) \<mapsto> c_str v @ [NUL]) else entries s),
            set_calls := set_calls s @ [(h, key, v, ok)]\<rparr>)"

subsection \<open>Formatting the hardware address\<close>

datatype mac6 = Mac "8 word" "8 word" "8 word" "8 word" "8 word" "8 word"

definition hex_digit :: "nat \<Rightarrow> char" where
  "hex_digit n = ''0123456789abcdef'' ! (n mod 16)"

text \<open>\<^verbatim>\<open>%02x\<close> of a byte: two lowercase hexadecimal digits, the high one first.\<close>

definition hex2 :: "8 word \<Rightarrow> string" where
  "hex2 b = [hex_digit (unat b div 16), hex_digit (unat b mod 16)]"

fun FormatMac :: "mac6 \<Rightarrow> string" where
  "FormatMac (Mac m0 m1 m2 m3 m4 m5) =
     hex2 m0 @ '':'' @ hex2 m1 @ '':'' @ hex2 m2 @ '':'' @ hex2 m3 @ '':'' @ hex2 m4 @ '':'' @ hex2 m5"

subsection \<open>Reading and writing the identifier\<close>

text \<open>
  The loop at the end of \<^verbatim>\<open>ReadUdidFromNvs\<close>:
  \<^verbatim>\<open>while (!value.empty() && value.back() == '\0') value.pop_back();\<close>
\<close>

function strip_nul :: "string \<Rightarrow> string" where
  "strip_nul v = (if v \<noteq> [] \<and> last v = NUL then strip_nul (butlast v) else v)"
  by pat_completeness auto
termination
  by (relation "measure length") auto

declare strip_nul.simps [simp del]

text \<open>
  \<^verbatim>\<open>ReadUdidFromNvs\<close> returns \<open>Some udid\<close> where the source returns true and has
  assigned \<^verbatim>\<open>*udid\<close>, and \<open>None\<close> where it returns false. It changes nothing.
\<close>

definition ReadUdidFromNvs :: "read_status \<Rightarrow> nvs_data \<Rightarrow> string option" where
  "ReadUdidFromNvs e d =
     (case nvs_open (rd_open e) kUdidNamespace of
        None \<Rightarrow> None
      | Some h \<Rightarrow>
          (case nvs_get_str_size (rd_size e) d h kUdidKey of
             None \<Rightarrow> None
           | Some len \<Rightarrow>
               if len = 0 then None
               else (case nvs_get_str (rd_get e) d h kUdidKey of
                       None \<Rightarrow> None
                     | Some v \<Rightarrow> Some (strip_nul v))))"

definition WriteUdidToNvs :: "write_status \<Rightarrow> string \<Rightarrow> nvs \<Rightarrow> nvs" where
  "WriteUdidToNvs e udid s =
     (case nvs_open (wr_open e) kUdidNamespace of
        None \<Rightarrow> s
      | Some h \<Rightarrow> snd (nvs_set_str (wr_set e) h kUdidKey udid s))"

subsection \<open>The provisioning marker\<close>

definition digit_char :: "nat \<Rightarrow> char" where
  "digit_char n = ''0123456789'' ! (n mod 10)"

text \<open>\<^verbatim>\<open>std::to_string\<close> on a non-negative \<^verbatim>\<open>int\<close>: the decimal digits.\<close>

function to_string :: "nat \<Rightarrow> string" where
  "to_string n = (if n < 10 then [digit_char n] else to_string (n div 10) @ [digit_char (n mod 10)])"
  by pat_completeness auto
termination
  by (relation "measure id") auto

declare to_string.simps [simp del]

definition ssid_key :: "nat \<Rightarrow> string" where
  "ssid_key i = ''ssid'' @ (if i > 0 then to_string i else [])"

text \<open>The \<^verbatim>\<open>for\<close> loop of \<^verbatim>\<open>HasWifiConfigInNvs\<close>, from index \<open>i\<close> on.\<close>

function ssid_loop :: "wifi_status \<Rightarrow> nvs_data \<Rightarrow> string \<Rightarrow> nat \<Rightarrow> bool" where
  "ssid_loop e d h i =
     (if i < kMaxWifiSsidCount then
        (case nvs_get_str_size (wf_size e i) d h (ssid_key i) of
           Some len \<Rightarrow> if len > 0 then True else ssid_loop e d h (Suc i)
         | None \<Rightarrow> ssid_loop e d h (Suc i))
      else False)"
  by pat_completeness auto
termination
  by (relation "measure (\<lambda>(e, d, h, i). kMaxWifiSsidCount - i)") auto

declare ssid_loop.simps [simp del]

definition HasWifiConfigInNvs :: "wifi_status \<Rightarrow> nvs_data \<Rightarrow> bool" where
  "HasWifiConfigInNvs e d =
     (case nvs_open (wf_open e) kWifiNamespace of
        None \<Rightarrow> False
      | Some h \<Rightarrow> ssid_loop e d h 0)"

subsection \<open>Deriving and returning the identifier\<close>

text \<open>
  The block of \<^verbatim>\<open>InitializeUdid\<close> that overwrites \<^verbatim>\<open>mac[0..2]\<close> with the three low
  bytes of the random word \<open>r\<close>.
\<close>

fun randomize_prefix :: "32 word \<Rightarrow> mac6 \<Rightarrow> mac6" where
  "randomize_prefix r (Mac m0 m1 m2 m3 m4 m5) =
     Mac (ucast (r AND 0xFF)) (ucast (drop_bit 8 r AND 0xFF)) (ucast (drop_bit 16 r AND 0xFF)) m3 m4 m5"

definition log_line :: "string \<Rightarrow> string \<Rightarrow> string \<Rightarrow> nvs \<Rightarrow> nvs" where
  "log_line mac_str udid src s = s\<lparr>log_lines := log_lines s @ [(mac_str, udid, src)]\<rparr>"

text \<open>
  \<^verbatim>\<open>InitializeUdid\<close>. \<open>mac\<close> is what \<^verbatim>\<open>GetStaMac\<close> delivers, \<open>r\<close> what
  \<^verbatim>\<open>esp_random\<close> delivers when it is called. The re-reads after the write only decide
  whether a log line is printed.
\<close>

definition InitializeUdid :: "init_status \<Rightarrow> mac6 \<Rightarrow> 32 word \<Rightarrow> nvs \<Rightarrow> nvs" where
  "InitializeUdid e mac r s =
     (let mac_str = FormatMac mac in
      case ReadUdidFromNvs (in_read e) (entries s) of
        Some udid \<Rightarrow> log_line mac_str udid ''udid_nvs'' s
      | None \<Rightarrow>
          if HasWifiConfigInNvs (in_wifi e) (entries s) then
            (let s1 = WriteUdidToNvs (in_write e) mac_str s in
             case ReadUdidFromNvs (in_reread e) (entries s1) of
               Some udid \<Rightarrow> log_line mac_str udid ''mac'' s1
             | None \<Rightarrow> s1)
          else
            (let s1 = WriteUdidToNvs (in_write e) (FormatMac (randomize_prefix r mac)) s in
             case ReadUdidFromNvs (in_reread e) (entries s1) of
               Some udid \<Rightarrow> log_line mac_str udid ''randomized'' s1
             | None \<Rightarrow> s1))"

text \<open>
  \<^verbatim>\<open>SystemInfo::GetMacAddress\<close>, the spec's \<^verbatim>\<open>GetDeviceIdentifier\<close>. The station
  address is a constant of the device: the \<^verbatim>\<open>GetStaMac\<close> of the fallback delivers the
  \<open>mac\<close> that the \<^verbatim>\<open>GetStaMac\<close> of \<^verbatim>\<open>InitializeUdid\<close> delivered.
\<close>

definition GetMacAddress :: "call_status \<Rightarrow> mac6 \<Rightarrow> 32 word \<Rightarrow> nvs \<Rightarrow> string \<times> nvs" where
  "GetMacAddress e mac r s =
     (case ReadUdidFromNvs (ca_read e) (entries s) of
        Some udid \<Rightarrow> (udid, s)
      | None \<Rightarrow>
          (let s1 = InitializeUdid (ca_init e) mac r s in
           case ReadUdidFromNvs (ca_reread e) (entries s1) of
             Some udid \<Rightarrow> (udid, s1)
           | None \<Rightarrow> (FormatMac mac, s1)))"

subsection \<open>Vocabulary of the identifier claims\<close>

text \<open>A helper's store calls all succeed.\<close>

definition read_works :: "read_status \<Rightarrow> bool" where
  "read_works e = (rd_open e \<and> rd_size e \<and> rd_get e)"

definition write_works :: "write_status \<Rightarrow> bool" where
  "write_works e = (wr_open e \<and> wr_set e)"

definition wifi_works :: "wifi_status \<Rightarrow> bool" where
  "wifi_works e = (wf_open e \<and> (\<forall>i<kMaxWifiSsidCount. wf_size e i))"

definition init_works :: "init_status \<Rightarrow> bool" where
  "init_works e = (read_works (in_read e) \<and> wifi_works (in_wifi e) \<and> write_works (in_write e) \<and>
     read_works (in_reread e))"

definition call_works :: "call_status \<Rightarrow> bool" where
  "call_works e = (read_works (ca_read e) \<and> init_works (ca_init e) \<and> read_works (ca_reread e))"

text \<open>
  The address whose token \<^verbatim>\<open>InitializeUdid\<close> hands to \<^verbatim>\<open>WriteUdidToNvs\<close> when it finds
  no identifier: the hardware address itself on a provisioned device, the address with the
  random prefix otherwise.
\<close>

definition candidate :: "wifi_status \<Rightarrow> mac6 \<Rightarrow> 32 word \<Rightarrow> nvs_data \<Rightarrow> mac6" where
  "candidate w mac r d = (if HasWifiConfigInNvs w d then mac else randomize_prefix r mac)"

text \<open>The ten credential keys, written out: the first has no index, the others carry theirs.\<close>

definition slot_keys :: "string list" where
  "slot_keys = [''ssid'', ''ssid1'', ''ssid2'', ''ssid3'', ''ssid4'', ''ssid5'', ''ssid6'', ''ssid7'',
     ''ssid8'', ''ssid9'']"

text \<open>
  A well-formed token: six pairs of lowercase hexadecimal digits, a colon between
  neighbouring pairs.
\<close>

definition is_hex_char :: "char \<Rightarrow> bool" where
  "is_hex_char c = (c \<in> set ''0123456789abcdef'')"

fun hex_pairs :: "nat \<Rightarrow> string \<Rightarrow> bool" where
  "hex_pairs (Suc 0) [a, b] = (is_hex_char a \<and> is_hex_char b)"
| "hex_pairs (Suc (Suc n)) (a # b # c # t) =
     (is_hex_char a \<and> is_hex_char b \<and> c = CHR '':'' \<and> hex_pairs (Suc n) t)"
| "hex_pairs _ _ = False"

definition is_mac_token :: "string \<Rightarrow> bool" where
  "is_mac_token t = hex_pairs 6 t"

text \<open>Concrete inputs: statuses of a store that works, an empty store, the address of the spec.\<close>

definition ok_read :: read_status where
  "ok_read = \<lparr>rd_open = True, rd_size = True, rd_get = True\<rparr>"

definition bad_read :: read_status where
  "bad_read = \<lparr>rd_open = False, rd_size = True, rd_get = True\<rparr>"

definition ok_write :: write_status where
  "ok_write = \<lparr>wr_open = True, wr_set = True\<rparr>"

definition bad_write :: write_status where
  "bad_write = \<lparr>wr_open = True, wr_set = False\<rparr>"

definition ok_wifi :: wifi_status where
  "ok_wifi = \<lparr>wf_open = True, wf_size = (\<lambda>i. True)\<rparr>"

definition ok_init :: init_status where
  "ok_init = \<lparr>in_read = ok_read, in_wifi = ok_wifi, in_write = ok_write, in_reread = ok_read\<rparr>"

definition ok_call :: call_status where
  "ok_call = \<lparr>ca_read = ok_read, ca_init = ok_init, ca_reread = ok_read\<rparr>"

definition fresh_store :: nvs where
  "fresh_store = \<lparr>entries = (\<lambda>k. None), set_calls = [], log_lines = []\<rparr>"

text \<open>A store whose identifier key holds the empty C string: the terminator alone.\<close>

definition blank_udid_store :: nvs where
  "blank_udid_store =
     \<lparr>entries = (\<lambda>k. if k = (''device'', ''udid'') then Some [NUL] else None),
      set_calls = [], log_lines = []\<rparr>"

text \<open>A store with no identifier whose first credential key holds the empty C string.\<close>

definition blank_ssid_store :: nvs where
  "blank_ssid_store =
     \<lparr>entries = (\<lambda>k. if k = (''wifi'', ''ssid'') then Some [NUL] else None),
      set_calls = [], log_lines = []\<rparr>"

text \<open>A store that already holds the identifier \<^verbatim>\<open>unit-7\<close>.\<close>

definition kept_store :: nvs where
  "kept_store =
     \<lparr>entries = (\<lambda>k. if k = (''device'', ''udid'') then Some (''unit-7'' @ [NUL]) else None),
      set_calls = [], log_lines = []\<rparr>"

text \<open>A store with no identifier and one network credential, in the third slot.\<close>

definition home_store :: nvs where
  "home_store =
     \<lparr>entries = (\<lambda>k. if k = (''wifi'', ''ssid2'') then Some (''home'' @ [NUL]) else None),
      set_calls = [], log_lines = []\<rparr>"

text \<open>A call whose last read of the identifier fails, and a call whose \<^verbatim>\<open>nvs_set_str\<close> fails.\<close>

definition lost_reread_call :: call_status where
  "lost_reread_call = \<lparr>ca_read = ok_read, ca_init = ok_init, ca_reread = bad_read\<rparr>"

definition lost_write_call :: call_status where
  "lost_write_call =
     \<lparr>ca_read = ok_read,
      ca_init = \<lparr>in_read = ok_read, in_wifi = ok_wifi, in_write = bad_write, in_reread = ok_read\<rparr>,
      ca_reread = ok_read\<rparr>"

text \<open>A call whose reads of the identifier fail until the write has been made.\<close>

definition lost_read_call :: call_status where
  "lost_read_call =
     \<lparr>ca_read = bad_read,
      ca_init = \<lparr>in_read = bad_read, in_wifi = ok_wifi, in_write = ok_write, in_reread = ok_read\<rparr>,
      ca_reread = ok_read\<rparr>"

definition spec_mac :: mac6 where
  "spec_mac = Mac 0xAA 0xBB 0xCC 0xDD 0xEE 0xFF"

section \<open>The CPU usage sampler: \<^verbatim>\<open>SystemInfo::PrintTaskCpuUsage\<close>\<close>

datatype esp_err_t = ESP_OK | ESP_ERR_NO_MEM | ESP_ERR_INVALID_SIZE | ESP_ERR_INVALID_STATE

text \<open>
  A task handle is a pointer; \<open>NULL\<close> is the address 0. The run-time counters are taken
  as 32-bit: \<^verbatim>\<open>total_elapsed_time\<close> and \<^verbatim>\<open>task_elapsed_time\<close> are \<^verbatim>\<open>uint32_t\<close>, so a
  wider \<^verbatim>\<open>configRUN_TIME_COUNTER_TYPE\<close> is cut to its low 32 bits by the assignments.
\<close>

type_synonym TaskHandle_t = nat

definition NULL :: TaskHandle_t where
  "NULL = 0"

record TaskStatus_t =
  xHandle :: TaskHandle_t
  pcTaskName :: string
  ulRunTimeCounter :: "32 word"

text \<open>
  What the function prints, one value per \<^verbatim>\<open>printf\<close>. \<open>Usage i k name t p\<close> is the line
  of a matched task with run time \<open>t\<close> and percentage \<open>p\<close>; \<open>i\<close> and \<open>k\<close> are the
  positions in the two arrays the line was computed from. \<open>Deleted i name\<close> and
  \<open>Created j name\<close> carry the position of their entry too. The positions are not
  printed; they say which entry a line belongs to.
\<close>

datatype report_line =
    Header
  | Usage nat nat string "32 word" "32 word"
  | Deleted nat string
  | Created nat string

text \<open>An unsigned division by zero is undefined behaviour in C; the model stops there.\<close>

datatype trap = DivideByZero

text \<open>
  The answers of the heap and the scheduler to the calls of one run: whether each
  \<^verbatim>\<open>malloc\<close> returned a buffer, and what each \<^verbatim>\<open>uxTaskGetSystemState\<close> delivered (the
  entries it filled in, whose number is its return value, and the global run-time counter).
  The capacity \<^verbatim>\<open>uxTaskGetNumberOfTasks() + ARRAY_SIZE_OFFSET\<close> only decides how many bytes
  \<^verbatim>\<open>malloc\<close> is asked for.
\<close>

record sampler_env =
  malloc_start :: bool
  state_start :: "TaskStatus_t list \<times> 32 word"
  malloc_end :: bool
  state_end :: "TaskStatus_t list \<times> 32 word"

text \<open>The inner \<^verbatim>\<open>for\<close> loop: the first \<open>j\<close> from \<open>j\<close> on whose handle equals \<open>h\<close>.\<close>

function inner_loop :: "TaskHandle_t \<Rightarrow> TaskStatus_t list \<Rightarrow> nat \<Rightarrow> nat option" where
  "inner_loop h en j =
     (if j < length en then
        (if h = xHandle (en ! j) then Some j else inner_loop h en (Suc j))
      else None)"
  by pat_completeness auto
termination
  by (relation "measure (\<lambda>(h, en, j). length en - j)") auto

declare inner_loop.simps [simp del]

text \<open>
  The outer \<^verbatim>\<open>for\<close> loop from index \<open>i\<close> on. \<open>elapsed\<close> is \<^verbatim>\<open>total_elapsed_time\<close>,
  \<open>cores\<close> is \<^verbatim>\<open>CONFIG_FREERTOS_NUMBER_OF_CORES\<close>, a constant of the build configuration.
\<close>

function match_loop ::
  "32 word \<Rightarrow> 32 word \<Rightarrow> nat \<Rightarrow> TaskStatus_t list \<Rightarrow> TaskStatus_t list \<Rightarrow> report_line list \<Rightarrow>
     trap + (TaskStatus_t list \<times> TaskStatus_t list \<times> report_line list)" where
  "match_loop elapsed cores i st en out =
     (if i < length st then
        (case inner_loop (xHandle (st ! i)) en 0 of
           None \<Rightarrow> match_loop elapsed cores (Suc i) st en out
         | Some k \<Rightarrow>
             (let st1 = st[i := (st ! i)\<lparr>xHandle := NULL\<rparr>];
                  en1 = en[k := (en ! k)\<lparr>xHandle := NULL\<rparr>];
                  task_elapsed_time = ulRunTimeCounter (en1 ! k) - ulRunTimeCounter (st1 ! i)
              in if elapsed * cores = 0 then Inl DivideByZero
                 else match_loop elapsed cores (Suc i) st1 en1
                        (out @ [Usage i k (pcTaskName (st1 ! i)) task_elapsed_time
                                  ((task_elapsed_time * 100) div (elapsed * cores))])))
      else Inr (st, en, out))"
  by pat_completeness auto
termination
  by (relation "measure (\<lambda>(elapsed, cores, i, st, en, out). length st - i)") auto

declare match_loop.simps [simp del]

text \<open>The two passes that print the entries whose handle was not overwritten.\<close>

definition deleted_lines :: "TaskStatus_t list \<Rightarrow> report_line list" where
  "deleted_lines st = [Deleted i (pcTaskName (st ! i)). i \<leftarrow> [0..<length st], xHandle (st ! i) \<noteq> NULL]"

definition created_lines :: "TaskStatus_t list \<Rightarrow> report_line list" where
  "created_lines en = [Created j (pcTaskName (en ! j)). j \<leftarrow> [0..<length en], xHandle (en ! j) \<noteq> NULL]"

text \<open>
  \<^verbatim>\<open>PrintTaskCpuUsage\<close>: the return code and the lines printed, or the trap. The delay
  between the two captures shows only in what the second capture delivers.
\<close>

definition PrintTaskCpuUsage :: "32 word \<Rightarrow> sampler_env \<Rightarrow> trap + (esp_err_t \<times> report_line list)" where
  "PrintTaskCpuUsage cores env =
     (if \<not> malloc_start env then Inr (ESP_ERR_NO_MEM, [])
      else case state_start env of (st, start_run_time) \<Rightarrow>
        if length st = 0 then Inr (ESP_ERR_INVALID_SIZE, [])
        else if \<not> malloc_end env then Inr (ESP_ERR_NO_MEM, [])
        else case state_end env of (en, end_run_time) \<Rightarrow>
          if length en = 0 then Inr (ESP_ERR_INVALID_SIZE, [])
          else let total_elapsed_time = end_run_time - start_run_time in
            if total_elapsed_time = 0 then Inr (ESP_ERR_INVALID_STATE, [])
            else (case match_loop total_elapsed_time cores 0 st en [Header] of
                    Inl t \<Rightarrow> Inl t
                  | Inr (st1, en1, out) \<Rightarrow>
                      Inr (ESP_OK, out @ deleted_lines st1 @ created_lines en1)))"

subsection \<open>Vocabulary of the sampler claims\<close>

fun usage_start :: "report_line \<Rightarrow> nat option" where
  "usage_start (Usage i k n t p) = Some i"
| "usage_start _ = None"

fun usage_end :: "report_line \<Rightarrow> nat option" where
  "usage_end (Usage i k n t p) = Some k"
| "usage_end _ = None"

fun deleted_at :: "report_line \<Rightarrow> nat option" where
  "deleted_at (Deleted i n) = Some i"
| "deleted_at _ = None"

fun created_at :: "report_line \<Rightarrow> nat option" where
  "created_at (Created j n) = Some j"
| "created_at _ = None"

text \<open>
  The handles the scheduler delivers are addresses of task control blocks, never \<open>NULL\<close>;
  the source relies on that when it marks a matched entry by a \<open>NULL\<close> handle.
\<close>

definition valid_handles :: "TaskStatus_t list \<Rightarrow> bool" where
  "valid_handles A = (\<forall>a\<in>set A. xHandle a \<noteq> NULL)"

text \<open>
  \<open>nulled A M\<close> is the array \<open>A\<close> with the handles at the positions in \<open>M\<close> overwritten by
  \<open>NULL\<close>. \<open>usage_ok\<close> says what a line printed by the matching loop holds, in terms of the
  two arrays as they were captured; \<open>usage_fmt\<close> is its part that needs no assumption on the
  handles. \<open>match_inv\<close> is the invariant of the outer loop before it looks at index \<open>i\<close>;
  \<open>same_data\<close> says that names and counters are untouched.
\<close>

definition nulled :: "TaskStatus_t list \<Rightarrow> nat set \<Rightarrow> TaskStatus_t list" where
  "nulled A M = map (\<lambda>x. if x \<in> M then (A ! x)\<lparr>xHandle := NULL\<rparr> else A ! x) [0..<length A]"

definition usage_ok ::
  "TaskStatus_t list \<Rightarrow> TaskStatus_t list \<Rightarrow> 32 word \<Rightarrow> 32 word \<Rightarrow> report_line \<Rightarrow> bool" where
  "usage_ok A B elapsed cores l =
     (case l of
        Usage i k n t p \<Rightarrow>
          i < length A \<and> k < length B \<and> xHandle (A ! i) = xHandle (B ! k) \<and>
          n = pcTaskName (A ! i) \<and>
          t = ulRunTimeCounter (B ! k) - ulRunTimeCounter (A ! i) \<and>
          elapsed * cores \<noteq> 0 \<and> p = (t * 100) div (elapsed * cores)
      | Header \<Rightarrow> True
      | Deleted i n \<Rightarrow> False
      | Created j n \<Rightarrow> False)"

definition match_inv ::
  "TaskStatus_t list \<Rightarrow> TaskStatus_t list \<Rightarrow> 32 word \<Rightarrow> 32 word \<Rightarrow> nat \<Rightarrow>
   TaskStatus_t list \<Rightarrow> TaskStatus_t list \<Rightarrow> report_line list \<Rightarrow> bool" where
  "match_inv A B elapsed cores i st en out =
     (i \<le> length A \<and>
      st = nulled A (set (List.map_filter usage_start out)) \<and>
      en = nulled B (set (List.map_filter usage_end out)) \<and>
      set (List.map_filter usage_start out) \<subseteq> {..<i} \<and>
      distinct (List.map_filter usage_start out) \<and>
      distinct (List.map_filter usage_end out) \<and>
      (\<forall>l\<in>set out. usage_ok A B elapsed cores l) \<and>
      (\<forall>x<i. x \<notin> set (List.map_filter usage_start out) \<longrightarrow>
         (\<forall>y<length B. y \<notin> set (List.map_filter usage_end out) \<longrightarrow>
            xHandle (A ! x) \<noteq> xHandle (B ! y))))"



definition task :: "nat \<Rightarrow> string \<Rightarrow> 32 word \<Rightarrow> TaskStatus_t" where
  "task h n c = \<lparr>xHandle = h, pcTaskName = n, ulRunTimeCounter = c\<rparr>"

definition spec_env :: sampler_env where
  "spec_env = \<lparr>malloc_start = True,
     state_start = ([task 1 ''task1'' 100, task 2 ''task2'' 50], 0),
     malloc_end = True,
     state_end = ([task 1 ''task1'' 150, task 2 ''task2'' 90, task 3 ''task3'' 10], 60)\<rparr>"

definition wrap_env :: sampler_env where
  "wrap_env = \<lparr>malloc_start = True,
     state_start = ([task 1 ''main'' 0], 0),
     malloc_end = True,
     state_end = ([task 1 ''main'' 5], 0x80000000)\<rparr>"

section \<open>Facts about the helpers of the identifier code\<close>

lemma strip_nul_rev: "strip_nul v = rev (dropWhile (\<lambda>c. c = NUL) (rev v))"
proof (induction v rule: strip_nul.induct)
  case (1 v)
  show ?case
  proof (cases "v \<noteq> [] \<and> last v = NUL")
    case True
    then obtain w where w: "v = w @ [NUL]"
      by (metis append_butlast_last_id)
    with 1 True show ?thesis
      by (subst strip_nul.simps) simp
  next
    case False
    then show ?thesis
      by (subst strip_nul.simps) (cases v rule: rev_cases; simp)
  qed
qed

lemma strip_nul_terminated: "v \<noteq> [] \<Longrightarrow> last v \<noteq> NUL \<Longrightarrow> strip_nul (v @ [NUL]) = v"
  by (cases v rule: rev_cases) (simp_all add: strip_nul_rev)

lemma hex_digit_in: "hex_digit n \<in> set ''0123456789abcdef''"
  unfolding hex_digit_def by (rule nth_mem) simp

lemma hex_digit_not_NUL: "hex_digit n \<noteq> NUL"
  using hex_digit_in [of n] by (auto simp: NUL_def)

lemma length_FormatMac: "length (FormatMac m) = 17"
  by (cases m) (simp add: hex2_def)

lemma FormatMac_nonempty: "FormatMac m \<noteq> []"
  using length_FormatMac [of m] by auto

lemma NUL_notin_FormatMac: "NUL \<notin> set (FormatMac m)"
  by (cases m) (simp add: hex2_def hex_digit_not_NUL [symmetric], simp add: NUL_def)

lemma last_FormatMac: "last (FormatMac m) \<noteq> NUL"
  using NUL_notin_FormatMac [of m] FormatMac_nonempty [of m] last_in_set by metis

lemma c_str_FormatMac: "c_str (FormatMac m) = FormatMac m"
  unfolding c_str_def using NUL_notin_FormatMac [of m] by (simp add: takeWhile_eq_all_conv) metis

lemma stored_FormatMac: "strip_nul (c_str (FormatMac m) @ [NUL]) = FormatMac m"
  by (simp add: c_str_FormatMac strip_nul_terminated FormatMac_nonempty last_FormatMac)

lemma hex_pairs_6:
  "hex_pairs 6 [a0, a1, c1, b0, b1, c2, d0, d1, c3, e0, e1, c4, f0, f1, c5, g0, g1] =
     (is_hex_char a0 \<and> is_hex_char a1 \<and> c1 = CHR '':'' \<and>
      is_hex_char b0 \<and> is_hex_char b1 \<and> c2 = CHR '':'' \<and>
      is_hex_char d0 \<and> is_hex_char d1 \<and> c3 = CHR '':'' \<and>
      is_hex_char e0 \<and> is_hex_char e1 \<and> c4 = CHR '':'' \<and>
      is_hex_char f0 \<and> is_hex_char f1 \<and> c5 = CHR '':'' \<and>
      is_hex_char g0 \<and> is_hex_char g1)"
  by (simp add: eval_nat_numeral)

lemma is_hex_char_hex_digit: "is_hex_char (hex_digit n)"
  unfolding is_hex_char_def by (rule hex_digit_in)

lemma is_mac_token_FormatMac: "is_mac_token (FormatMac m)"
  by (cases m) (simp add: is_mac_token_def hex2_def hex_pairs_6 is_hex_char_hex_digit)

lemma low_byte_mask: "(w :: 32 word) AND 0xFF = take_bit 8 w"
proof -
  have "(0xFF :: 32 word) = mask 8" by (simp add: mask_eq_exp_minus_1)
  then show ?thesis by (simp add: take_bit_eq_mask)
qed

lemma unat_low_byte: "unat (ucast ((w :: 32 word) AND 0xFF) :: 8 word) = unat w mod 256"
  by (simp add: low_byte_mask unsigned_ucast_eq unsigned_take_bit_eq take_bit_eq_mod unat_mod)

lemma unat_byte1: "unat (ucast (drop_bit 8 r AND 0xFF) :: 8 word) = unat (r :: 32 word) div 256 mod 256"
  by (simp add: unat_low_byte unat_drop_bit_eq drop_bit_eq_div unat_div)

lemma unat_byte2: "unat (ucast (drop_bit 16 r AND 0xFF) :: 8 word) = unat (r :: 32 word) div 65536 mod 256"
  by (simp add: unat_low_byte unat_drop_bit_eq drop_bit_eq_div unat_div)

lemma Read_absent: "d (kUdidNamespace, kUdidKey) = None \<Longrightarrow> ReadUdidFromNvs e d = None"
  by (simp add: ReadUdidFromNvs_def nvs_open_def nvs_get_str_size_def nvs_get_str_def)

lemma Read_fails: "\<not> read_works e \<Longrightarrow> ReadUdidFromNvs e d = None"
  by (auto simp: ReadUdidFromNvs_def read_works_def nvs_open_def nvs_get_str_size_def nvs_get_str_def
      split: option.splits)

lemma Read_works:
  "read_works e \<Longrightarrow> ReadUdidFromNvs e d =
     (case d (kUdidNamespace, kUdidKey) of None \<Rightarrow> None
      | Some raw \<Rightarrow> if raw = [] then None else Some (strip_nul raw))"
  by (auto simp: ReadUdidFromNvs_def read_works_def nvs_open_def nvs_get_str_size_def nvs_get_str_def
      split: option.splits)

lemma Read_SomeD:
  "ReadUdidFromNvs e d = Some u \<Longrightarrow>
     read_works e \<and> (\<exists>raw. d (kUdidNamespace, kUdidKey) = Some raw \<and> raw \<noteq> [] \<and> u = strip_nul raw)"
  by (auto simp: ReadUdidFromNvs_def read_works_def nvs_open_def nvs_get_str_size_def nvs_get_str_def
      split: option.splits if_splits)

lemma entries_Write:
  "entries (WriteUdidToNvs e v s) =
     (if write_works e then (entries s)((kUdidNamespace, kUdidKey) \<mapsto> c_str v @ [NUL]) else entries s)"
  by (simp add: WriteUdidToNvs_def write_works_def nvs_open_def nvs_set_str_def)

lemma set_calls_Write:
  "set_calls (WriteUdidToNvs e v s) =
     (if wr_open e then set_calls s @ [(kUdidNamespace, kUdidKey, v, wr_set e)] else set_calls s)"
  by (simp add: WriteUdidToNvs_def nvs_open_def nvs_set_str_def)

lemma log_lines_Write: "log_lines (WriteUdidToNvs e v s) = log_lines s"
  by (simp add: WriteUdidToNvs_def nvs_open_def nvs_set_str_def)

lemma ssid_loop_iff:
  "ssid_loop e d h i =
     (\<exists>j. i \<le> j \<and> j < kMaxWifiSsidCount \<and> wf_size e j \<and>
          (\<exists>raw. d (h, ssid_key j) = Some raw \<and> raw \<noteq> []))"
proof (induction e d h i rule: ssid_loop.induct)
  case (1 e d h i)
  let ?hit = "\<lambda>j. wf_size e j \<and> (\<exists>raw. d (h, ssid_key j) = Some raw \<and> raw \<noteq> [])"
  show ?case
  proof (cases "i < kMaxWifiSsidCount")
    case False
    then show ?thesis by (subst ssid_loop.simps) auto
  next
    case True
    show ?thesis
    proof (cases "?hit i")
      case True
      with \<open>i < kMaxWifiSsidCount\<close> have "ssid_loop e d h i"
        by (subst ssid_loop.simps) (auto simp: nvs_get_str_size_def)
      moreover from True \<open>i < kMaxWifiSsidCount\<close>
      have "\<exists>j. i \<le> j \<and> j < kMaxWifiSsidCount \<and> ?hit j" by blast
      ultimately show ?thesis by simp
    next
      case False
      with \<open>i < kMaxWifiSsidCount\<close> have step: "ssid_loop e d h i = ssid_loop e d h (Suc i)"
        by (subst ssid_loop.simps) (auto simp: nvs_get_str_size_def split: option.splits)
      have IH: "ssid_loop e d h (Suc i) = (\<exists>j. Suc i \<le> j \<and> j < kMaxWifiSsidCount \<and> ?hit j)"
      proof (cases "nvs_get_str_size (wf_size e i) d h (ssid_key i)")
        case None
        from "1.IH"(1) [OF \<open>i < kMaxWifiSsidCount\<close> None] show ?thesis .
      next
        case (Some len)
        with False have "\<not> 0 < len"
          by (auto simp: nvs_get_str_size_def split: if_splits)
        from "1.IH"(2) [OF \<open>i < kMaxWifiSsidCount\<close> Some this] show ?thesis .
      qed
      have "(\<exists>j. Suc i \<le> j \<and> j < kMaxWifiSsidCount \<and> ?hit j) = (\<exists>j. i \<le> j \<and> j < kMaxWifiSsidCount \<and> ?hit j)"
        using False by (metis Suc_leD Suc_leI le_neq_implies_less)
      with step IH show ?thesis by simp
    qed
  qed
qed

lemma HasWifi_iff:
  "HasWifiConfigInNvs e d =
     (wf_open e \<and> (\<exists>j<kMaxWifiSsidCount. wf_size e j \<and>
          (\<exists>raw. d (kWifiNamespace, ssid_key j) = Some raw \<and> raw \<noteq> [])))"
  by (auto simp: HasWifiConfigInNvs_def nvs_open_def ssid_loop_iff)

lemma to_string_digit: "n < 10 \<Longrightarrow> to_string n = [digit_char n]"
  by (subst to_string.simps) simp

lemma ssid_key_slot: "j < kMaxWifiSsidCount \<Longrightarrow> ssid_key j = slot_keys ! j"
proof -
  assume "j < kMaxWifiSsidCount"
  then have "j \<in> {0, 1, 2, 3, 4, 5, 6, 7, 8, 9}"
    by (auto simp: kMaxWifiSsidCount_def)
  then show ?thesis
    by (auto simp: ssid_key_def to_string_digit digit_char_def slot_keys_def)
qed

lemma Init_present:
  assumes "ReadUdidFromNvs (in_read e) (entries s) = Some u"
  shows "entries (InitializeUdid e mac r s) = entries s"
    and "set_calls (InitializeUdid e mac r s) = set_calls s"
  using assms by (simp_all add: InitializeUdid_def log_line_def)

lemma Init_absent:
  assumes "ReadUdidFromNvs (in_read e) (entries s) = None"
  shows "entries (InitializeUdid e mac r s) =
           entries (WriteUdidToNvs (in_write e) (FormatMac (candidate (in_wifi e) mac r (entries s))) s)"
    and "set_calls (InitializeUdid e mac r s) =
           set_calls (WriteUdidToNvs (in_write e) (FormatMac (candidate (in_wifi e) mac r (entries s))) s)"
  using assms
  by (simp_all add: InitializeUdid_def candidate_def log_line_def Let_def split: option.splits)

lemma Get_fast:
  "ReadUdidFromNvs (ca_read e) (entries s) = Some u \<Longrightarrow> GetMacAddress e mac r s = (u, s)"
  by (simp add: GetMacAddress_def)

lemma Get_slow:
  "ReadUdidFromNvs (ca_read e) (entries s) = None \<Longrightarrow>
     GetMacAddress e mac r s =
       (case ReadUdidFromNvs (ca_reread e) (entries (InitializeUdid (ca_init e) mac r s)) of
          Some u \<Rightarrow> u | None \<Rightarrow> FormatMac mac,
        InitializeUdid (ca_init e) mac r s)"
  by (simp add: GetMacAddress_def Let_def split: option.splits)

lemma strip_nul_Nil: "strip_nul [] = []"
  by (simp add: strip_nul_rev)

lemma Read_after_Write:
  assumes "write_works w" "read_works e"
  shows "ReadUdidFromNvs e (entries (WriteUdidToNvs w (FormatMac m) s)) = Some (FormatMac m)"
  using assms by (simp add: Read_works entries_Write stored_FormatMac)

lemma Read_after_failed_Write:
  assumes "\<not> write_works w"
  shows "ReadUdidFromNvs e (entries (WriteUdidToNvs w v s)) = ReadUdidFromNvs e (entries s)"
  using assms by (simp add: entries_Write)

lemma read_works_ok [simp]: "read_works ok_read"
  by (simp add: read_works_def ok_read_def)

lemma write_works_ok [simp]: "write_works ok_write"
  by (simp add: write_works_def ok_write_def)

lemma wifi_works_ok [simp]: "wifi_works ok_wifi"
  by (simp add: wifi_works_def ok_wifi_def)

lemma init_works_ok [simp]: "init_works ok_init"
  by (simp add: init_works_def ok_init_def)

lemma call_works_ok [simp]: "call_works ok_call"
  by (simp add: call_works_def ok_call_def)

lemma udid_key [simp]: "(kUdidNamespace, kUdidKey) = (''device'', ''udid'')"
  by (simp add: kUdidNamespace_def kUdidKey_def)

lemma GetMacAddress_empty_only_if_blank:
  assumes "fst (GetMacAddress e mac r s) = []"
  shows "\<exists>raw. entries s (''device'', ''udid'') = Some raw \<and> raw \<noteq> [] \<and> strip_nul raw = []"
proof (cases "ReadUdidFromNvs (ca_read e) (entries s)")
  case (Some u)
  with assms have "u = []" by (simp add: Get_fast)
  with Some show ?thesis using Read_SomeD [of "ca_read e" "entries s" u] by auto
next
  case None
  let ?s1 = "InitializeUdid (ca_init e) mac r s"
  from None assms obtain u where u: "ReadUdidFromNvs (ca_reread e) (entries ?s1) = Some u" "u = []"
    by (auto simp: Get_slow FormatMac_nonempty split: option.splits)
  then obtain raw where raw: "entries ?s1 (''device'', ''udid'') = Some raw" "raw \<noteq> []" "strip_nul raw = []"
    using Read_SomeD [of "ca_reread e" "entries ?s1" u] by auto
  show ?thesis
  proof (cases "ReadUdidFromNvs (in_read (ca_init e)) (entries s)")
    case (Some v)
    then have "entries ?s1 = entries s" by (rule Init_present)
    with raw show ?thesis by auto
  next
    case None
    let ?c = "candidate (in_wifi (ca_init e)) mac r (entries s)"
    from None have e1: "entries ?s1 = entries (WriteUdidToNvs (in_write (ca_init e)) (FormatMac ?c) s)"
      by (rule Init_absent)
    show ?thesis
    proof (cases "write_works (in_write (ca_init e))")
      case True
      with e1 raw have "raw = c_str (FormatMac ?c) @ [NUL]"
        by (simp add: entries_Write)
      with raw(3) have False
        using stored_FormatMac [of ?c] FormatMac_nonempty [of ?c] by simp
      then show ?thesis ..
    next
      case False
      with e1 raw show ?thesis by (auto simp: entries_Write)
    qed
  qed
qed

lemma FormatMac_spec_mac: "FormatMac spec_mac = ''aa:bb:cc:dd:ee:ff''"
  by (simp add: spec_mac_def hex2_def hex_digit_def)

lemma FormatMac_sample_prefix: "FormatMac (randomize_prefix 0x12345678 spec_mac) = ''78:56:34:dd:ee:ff''"
  by (simp add: spec_mac_def hex2_def hex_digit_def)

lemma FormatMac_random_prefix:
  "FormatMac (randomize_prefix r spec_mac) =
     [hex_digit (unat r mod 256 div 16), hex_digit (unat r mod 256 mod 16)] @ '':'' @
     [hex_digit (unat r div 256 mod 256 div 16), hex_digit (unat r div 256 mod 256 mod 16)] @ '':'' @
     [hex_digit (unat r div 65536 mod 256 div 16), hex_digit (unat r div 65536 mod 256 mod 16)] @
     '':dd:ee:ff''"
  unfolding spec_mac_def randomize_prefix.simps FormatMac.simps hex2_def
    unat_low_byte
  by (simp add: hex_digit_def unat_drop_bit_eq drop_bit_eq_div unat_div)

lemma bad_read_fails [simp]: "\<not> read_works bad_read"
  by (simp add: read_works_def bad_read_def)

lemma bad_write_fails [simp]: "\<not> write_works bad_write"
  by (simp add: write_works_def bad_write_def)

lemma no_slot_no_wifi:
  assumes "\<forall>i<10. entries s (''wifi'', slot_keys ! i) = None \<or> entries s (''wifi'', slot_keys ! i) = Some []"
  shows "\<not> HasWifiConfigInNvs w (entries s)"
proof
  assume "HasWifiConfigInNvs w (entries s)"
  then obtain j raw where j: "j < kMaxWifiSsidCount"
    and raw: "entries s (kWifiNamespace, ssid_key j) = Some raw" "raw \<noteq> []"
    unfolding HasWifi_iff by blast
  from j have "ssid_key j = slot_keys ! j" by (rule ssid_key_slot)
  with raw have "entries s (''wifi'', slot_keys ! j) = Some raw"
    by (simp add: kWifiNamespace_def)
  moreover from j have "j < 10" by (simp add: kMaxWifiSsidCount_def)
  ultimately show False using assms raw(2) by auto
qed

lemma fresh_store_no_slot:
  "\<forall>i<10. entries fresh_store (''wifi'', slot_keys ! i) = None \<or> entries fresh_store (''wifi'', slot_keys ! i) = Some []"
  by (simp add: fresh_store_def)

lemma Get_absent:
  assumes "entries s (''device'', ''udid'') = None"
  shows "GetMacAddress e mac r s =
     (if write_works (in_write (ca_init e)) \<and> read_works (ca_reread e)
      then FormatMac (candidate (in_wifi (ca_init e)) mac r (entries s)) else FormatMac mac,
      InitializeUdid (ca_init e) mac r s)"
    and "entries (InitializeUdid (ca_init e) mac r s) =
     (if write_works (in_write (ca_init e))
      then (entries s)((''device'', ''udid'') \<mapsto> FormatMac (candidate (in_wifi (ca_init e)) mac r (entries s)) @ [NUL])
      else entries s)"
    and "set_calls (InitializeUdid (ca_init e) mac r s) =
     (if wr_open (in_write (ca_init e))
      then set_calls s @ [(''device'', ''udid'', FormatMac (candidate (in_wifi (ca_init e)) mac r (entries s)),
                           wr_set (in_write (ca_init e)))]
      else set_calls s)"
proof -
  let ?w = "in_write (ca_init e)"
  let ?c = "candidate (in_wifi (ca_init e)) mac r (entries s)"
  let ?s1 = "InitializeUdid (ca_init e) mac r s"
  from assms have none: "\<And>x. ReadUdidFromNvs x (entries s) = None"
    by (simp add: Read_absent)
  from none have "entries ?s1 = entries (WriteUdidToNvs ?w (FormatMac ?c) s)"
    by (rule Init_absent)
  then show e1: "entries ?s1 =
     (if write_works ?w then (entries s)((''device'', ''udid'') \<mapsto> FormatMac ?c @ [NUL]) else entries s)"
    by (simp add: entries_Write c_str_FormatMac)
  from none have "set_calls ?s1 = set_calls (WriteUdidToNvs ?w (FormatMac ?c) s)"
    by (rule Init_absent)
  then show "set_calls ?s1 =
     (if wr_open ?w then set_calls s @ [(''device'', ''udid'', FormatMac ?c, wr_set ?w)] else set_calls s)"
    by (simp add: set_calls_Write kUdidNamespace_def kUdidKey_def)
  have "ReadUdidFromNvs (ca_reread e) (entries ?s1) =
     (if write_works ?w \<and> read_works (ca_reread e) then Some (FormatMac ?c) else None)"
  proof (cases "read_works (ca_reread e)")
    case False
    then show ?thesis by (simp add: Read_fails)
  next
    case True
    show ?thesis
    proof (cases "write_works ?w")
      case True
      with e1 \<open>read_works (ca_reread e)\<close> show ?thesis
        using stored_FormatMac [of ?c] by (simp add: Read_works c_str_FormatMac)
    next
      case False
      with e1 assms show ?thesis by (simp add: Read_absent)
    qed
  qed
  with none show "GetMacAddress e mac r s =
     (if write_works ?w \<and> read_works (ca_reread e) then FormatMac ?c else FormatMac mac, ?s1)"
    by (simp add: Get_slow)
qed

lemma fresh_candidate: "candidate w spec_mac r (entries fresh_store) = randomize_prefix r spec_mac"
  by (simp add: candidate_def no_slot_no_wifi fresh_store_no_slot)

lemma FormatMac_second_prefix: "FormatMac (randomize_prefix 0xABCDEF spec_mac) = ''ef:cd:ab:dd:ee:ff''"
  by (simp add: spec_mac_def hex2_def hex_digit_def)

lemma fresh_absent: "entries fresh_store (''device'', ''udid'') = None"
  by (simp add: fresh_store_def)

text \<open>
  With no identifier in the store and every credential key absent (or reported with length
  0), and a write that succeeds, the identifier persisted for the address AA:BB:CC:DD:EE:FF
  is, for every random word \<open>r\<close>, the byte of bits 0-7 of \<open>r\<close>, the byte of bits 8-15, the
  byte of bits 16-23, in lowercase hexadecimal, and then \<^verbatim>\<open>dd:ee:ff\<close>; it is what
  \<^verbatim>\<open>GetMacAddress\<close> returns where the read after the write succeeds.
\<close>

lemma random_prefix_is_persisted:
  assumes "entries s (''device'', ''udid'') = None"
    and "\<forall>i<10. entries s (''wifi'', slot_keys ! i) = None \<or> entries s (''wifi'', slot_keys ! i) = Some []"
    and "write_works (in_write (ca_init e))"
  shows "entries (snd (GetMacAddress e spec_mac r s)) (''device'', ''udid'') =
           Some ([hex_digit (unat r mod 256 div 16), hex_digit (unat r mod 256 mod 16)] @ '':'' @
                 [hex_digit (unat r div 256 mod 256 div 16), hex_digit (unat r div 256 mod 256 mod 16)] @ '':'' @
                 [hex_digit (unat r div 65536 mod 256 div 16), hex_digit (unat r div 65536 mod 256 mod 16)] @
                 '':dd:ee:ff'' @ [NUL])
       \<and> (read_works (ca_reread e) \<longrightarrow>
            fst (GetMacAddress e spec_mac r s) =
              [hex_digit (unat r mod 256 div 16), hex_digit (unat r mod 256 mod 16)] @ '':'' @
              [hex_digit (unat r div 256 mod 256 div 16), hex_digit (unat r div 256 mod 256 mod 16)] @ '':'' @
              [hex_digit (unat r div 65536 mod 256 div 16), hex_digit (unat r div 65536 mod 256 mod 16)] @
              '':dd:ee:ff'')"
proof -
  from assms(2) have "candidate (in_wifi (ca_init e)) spec_mac r (entries s) = randomize_prefix r spec_mac"
    by (simp add: candidate_def no_slot_no_wifi)
  with Get_absent [OF assms(1), of e spec_mac r] assms(3) show ?thesis
    by (simp add: FormatMac_random_prefix)
qed

lemma random_prefix_is_persisted_example:
  "entries (snd (GetMacAddress ok_call spec_mac 0x12345678 fresh_store)) (''device'', ''udid'')
     = Some (''78:56:34:dd:ee:ff'' @ [NUL])
   \<and> fst (GetMacAddress ok_call spec_mac 0x12345678 fresh_store) = ''78:56:34:dd:ee:ff''"
proof -
  have a: "entries fresh_store (''device'', ''udid'') = None"
    by (simp add: fresh_store_def)
  have c: "write_works (in_write (ca_init ok_call))" "read_works (ca_reread ok_call)"
    by (simp_all add: ok_call_def ok_init_def)
  from random_prefix_is_persisted [OF a fresh_store_no_slot c(1), of "0x12345678"] c(2)
  show ?thesis by (simp add: hex_digit_def)
qed

text \<open>
  A read that fails is taken for an absent identifier. On a store that holds \<^verbatim>\<open>unit-7\<close>,
  a call whose first reads fail and whose write succeeds derives a new identifier and stores
  it over the old one.
\<close>

lemma failed_read_is_taken_for_absent:
  "GetMacAddress lost_read_call spec_mac 0x12345678 kept_store =
     (''78:56:34:dd:ee:ff'', InitializeUdid (ca_init lost_read_call) spec_mac 0x12345678 kept_store)"
  "entries (InitializeUdid (ca_init lost_read_call) spec_mac 0x12345678 kept_store) (''device'', ''udid'')
     = Some (''78:56:34:dd:ee:ff'' @ [NUL])"
proof -
  let ?s1 = "InitializeUdid (ca_init lost_read_call) spec_mac 0x12345678 kept_store"
  have r0: "ReadUdidFromNvs (ca_read lost_read_call) (entries kept_store) = None"
      "ReadUdidFromNvs (in_read (ca_init lost_read_call)) (entries kept_store) = None"
    by (simp_all add: Read_fails lost_read_call_def)
  have nw: "\<not> HasWifiConfigInNvs (in_wifi (ca_init lost_read_call)) (entries kept_store)"
    by (simp add: HasWifi_iff kept_store_def kWifiNamespace_def)
  from Init_absent(1) [OF r0(2), of spec_mac "0x12345678"] nw
  have e1: "entries ?s1 = (entries kept_store)((''device'', ''udid'') \<mapsto> ''78:56:34:dd:ee:ff'' @ [NUL])"
    using c_str_FormatMac [of "randomize_prefix 0x12345678 spec_mac"]
    by (simp add: candidate_def entries_Write lost_read_call_def FormatMac_sample_prefix)
  then show "entries ?s1 (''device'', ''udid'') = Some (''78:56:34:dd:ee:ff'' @ [NUL])"
    by simp
  have "strip_nul (''78:56:34:dd:ee:ff'' @ [NUL]) = ''78:56:34:dd:ee:ff''"
    by (simp add: strip_nul_rev NUL_def)
  with e1 have "ReadUdidFromNvs (ca_reread lost_read_call) (entries ?s1) = Some ''78:56:34:dd:ee:ff''"
    by (simp add: Read_works lost_read_call_def)
  with r0(1) show "GetMacAddress lost_read_call spec_mac 0x12345678 kept_store = (''78:56:34:dd:ee:ff'', ?s1)"
    by (simp add: Get_slow)
qed

section \<open>Facts about the sampler\<close>

lemma inner_loop_Some:
  "inner_loop h en j = Some k \<Longrightarrow>
     j \<le> k \<and> k < length en \<and> xHandle (en ! k) = h \<and> (\<forall>y. j \<le> y \<and> y < k \<longrightarrow> xHandle (en ! y) \<noteq> h)"
proof (induction h en j rule: inner_loop.induct)
  case (1 h en j)
  show ?case
  proof (cases "j < length en \<and> h \<noteq> xHandle (en ! j)")
    case True
    with "1.prems" have "inner_loop h en (Suc j) = Some k"
      by (subst (asm) inner_loop.simps) simp
    with "1.IH" True have "Suc j \<le> k \<and> k < length en \<and> xHandle (en ! k) = h
        \<and> (\<forall>y. Suc j \<le> y \<and> y < k \<longrightarrow> xHandle (en ! y) \<noteq> h)"
      by simp
    with True show ?thesis
      by (metis Suc_leD Suc_leI le_neq_implies_less)
  next
    case False
    with "1.prems" have "j < length en \<and> h = xHandle (en ! j) \<and> k = j"
      by (subst (asm) inner_loop.simps) (auto split: if_splits)
    then show ?thesis by simp
  qed
qed

lemma inner_loop_None:
  "inner_loop h en j = None \<Longrightarrow> \<forall>y. j \<le> y \<and> y < length en \<longrightarrow> xHandle (en ! y) \<noteq> h"
proof (induction h en j rule: inner_loop.induct)
  case (1 h en j)
  show ?case
  proof (cases "j < length en")
    case True
    with "1.prems" have ne: "h \<noteq> xHandle (en ! j)" and rest: "inner_loop h en (Suc j) = None"
      by (subst (asm) inner_loop.simps; simp split: if_splits)+
    from "1.IH" [OF True ne rest] ne show ?thesis
      by (metis Suc_leI le_neq_implies_less)
  next
    case False
    then show ?thesis by simp
  qed
qed

lemma length_nulled [simp]: "length (nulled A M) = length A"
  by (simp add: nulled_def)

lemma nth_nulled:
  "x < length A \<Longrightarrow> nulled A M ! x = (if x \<in> M then (A ! x)\<lparr>xHandle := NULL\<rparr> else A ! x)"
  by (simp add: nulled_def)

lemma nulled_update:
  assumes "i < length A"
  shows "(nulled A M)[i := (nulled A M ! i)\<lparr>xHandle := NULL\<rparr>] = nulled A (insert i M)"
proof (rule nth_equalityI)
  show "length ((nulled A M)[i := (nulled A M ! i)\<lparr>xHandle := NULL\<rparr>]) = length (nulled A (insert i M))"
    by simp
next
  fix x
  assume "x < length ((nulled A M)[i := (nulled A M ! i)\<lparr>xHandle := NULL\<rparr>])"
  then have x: "x < length A" by simp
  show "(nulled A M)[i := (nulled A M ! i)\<lparr>xHandle := NULL\<rparr>] ! x = nulled A (insert i M) ! x"
  proof (cases "x = i")
    case True
    with assms show ?thesis by (simp add: nth_nulled)
  next
    case False
    with x show ?thesis by (simp add: nth_nulled)
  qed
qed

lemma map_filter_append: "List.map_filter f (xs @ ys) = List.map_filter f xs @ List.map_filter f ys"
  by (simp add: List.map_filter_def)

lemma map_filter_single: "List.map_filter f [x] = (case f x of None \<Rightarrow> [] | Some y \<Rightarrow> [y])"
  by (simp add: List.map_filter_def split: option.splits)

lemma inv_no_match:
  assumes inv: "match_inv A B elapsed cores i st en out"
    and i: "i < length A"
    and none: "inner_loop (xHandle (st ! i)) en 0 = None"
  shows "match_inv A B elapsed cores (Suc i) st en out"
proof -
  let ?MA = "set (List.map_filter usage_start out)"
  let ?MB = "set (List.map_filter usage_end out)"
  from inv have st: "st = nulled A ?MA" and en: "en = nulled B ?MB" and sub: "?MA \<subseteq> {..<i}"
    by (simp_all add: match_inv_def)
  from sub have "i \<notin> ?MA" by auto
  with st i have sti: "st ! i = A ! i" by (simp add: nth_nulled)
  have "xHandle (A ! i) \<noteq> xHandle (B ! y)" if y: "y < length B" "y \<notin> ?MB" for y
  proof -
    from y en have "en ! y = B ! y" by (simp add: nth_nulled)
    moreover from inner_loop_None [OF none] y(1) en have "xHandle (en ! y) \<noteq> xHandle (st ! i)" by simp
    ultimately show ?thesis using sti by simp
  qed
  with inv i sub show ?thesis
    unfolding match_inv_def by (auto simp: less_Suc_eq)
qed

lemma inv_match:
  assumes inv: "match_inv A B elapsed cores i st en out"
    and valid: "valid_handles A"
    and i: "i < length A"
    and some: "inner_loop (xHandle (st ! i)) en 0 = Some k"
    and nz: "elapsed * cores \<noteq> 0"
  shows "match_inv A B elapsed cores (Suc i)
           (st[i := (st ! i)\<lparr>xHandle := NULL\<rparr>]) (en[k := (en ! k)\<lparr>xHandle := NULL\<rparr>])
           (out @ [Usage i k (pcTaskName (st[i := (st ! i)\<lparr>xHandle := NULL\<rparr>] ! i))
                     (ulRunTimeCounter (en[k := (en ! k)\<lparr>xHandle := NULL\<rparr>] ! k)
                        - ulRunTimeCounter (st[i := (st ! i)\<lparr>xHandle := NULL\<rparr>] ! i))
                     (((ulRunTimeCounter (en[k := (en ! k)\<lparr>xHandle := NULL\<rparr>] ! k)
                        - ulRunTimeCounter (st[i := (st ! i)\<lparr>xHandle := NULL\<rparr>] ! i)) * 100)
                      div (elapsed * cores))])"
    (is "match_inv A B elapsed cores (Suc i) ?st1 ?en1 (out @ [?line])")
proof -
  let ?MA = "set (List.map_filter usage_start out)"
  let ?MB = "set (List.map_filter usage_end out)"
  from inv have st: "st = nulled A ?MA" and en: "en = nulled B ?MB" and sub: "?MA \<subseteq> {..<i}"
    and dA: "distinct (List.map_filter usage_start out)" and dB: "distinct (List.map_filter usage_end out)"
    and ok: "\<forall>l\<in>set out. usage_ok A B elapsed cores l"
    and mx: "\<forall>x<i. x \<notin> ?MA \<longrightarrow> (\<forall>y<length B. y \<notin> ?MB \<longrightarrow> xHandle (A ! x) \<noteq> xHandle (B ! y))"
    by (simp_all add: match_inv_def)
  from sub have iA: "i \<notin> ?MA" by auto
  with st i have sti: "st ! i = A ! i" by (simp add: nth_nulled)
  from valid i have hi: "xHandle (A ! i) \<noteq> NULL" by (simp add: valid_handles_def)
  from inner_loop_Some [OF some] en have k: "k < length B" and hk: "xHandle (en ! k) = xHandle (st ! i)"
    by simp_all
  have kB: "k \<notin> ?MB"
  proof
    assume "k \<in> ?MB"
    with en k have "xHandle (en ! k) = NULL" by (simp add: nth_nulled)
    with hk sti hi show False by simp
  qed
  with en k have enk: "en ! k = B ! k" by (simp add: nth_nulled)
  have st1: "?st1 = nulled A (insert i ?MA)"
    using nulled_update [OF i, of ?MA] st by simp
  have en1: "?en1 = nulled B (insert k ?MB)"
    using nulled_update [OF k, of ?MB] en by simp
  have sA: "List.map_filter usage_start (out @ [?line]) = List.map_filter usage_start out @ [i]"
    by (simp add: map_filter_append map_filter_single)
  have sB: "List.map_filter usage_end (out @ [?line]) = List.map_filter usage_end out @ [k]"
    by (simp add: map_filter_append map_filter_single)
  have line: "usage_ok A B elapsed cores ?line"
    using i k st en sti enk hk nz by (simp add: usage_ok_def)
  show ?thesis
    unfolding match_inv_def sA sB
  proof (intro conjI)
    show "Suc i \<le> length A" using i by simp
    show "?st1 = nulled A (set (List.map_filter usage_start out @ [i]))" using st1 by simp
    show "?en1 = nulled B (set (List.map_filter usage_end out @ [k]))" using en1 by simp
    show "set (List.map_filter usage_start out @ [i]) \<subseteq> {..<Suc i}" using sub by auto
    show "distinct (List.map_filter usage_start out @ [i])" using dA iA by simp
    show "distinct (List.map_filter usage_end out @ [k])" using dB kB by simp
    show "\<forall>l\<in>set (out @ [?line]). usage_ok A B elapsed cores l" using ok line by simp
    show "\<forall>x<Suc i. x \<notin> set (List.map_filter usage_start out @ [i]) \<longrightarrow>
        (\<forall>y<length B. y \<notin> set (List.map_filter usage_end out @ [k]) \<longrightarrow> xHandle (A ! x) \<noteq> xHandle (B ! y))"
      using mx by (auto simp: less_Suc_eq)
  qed
qed

lemma match_loop_inv:
  assumes "match_loop elapsed cores i st en out = Inr (st', en', out')"
    and "match_inv A B elapsed cores i st en out"
    and "valid_handles A"
  shows "match_inv A B elapsed cores (length A) st' en' out'"
  using assms
proof (induction elapsed cores i st en out rule: match_loop.induct)
  case (1 elapsed cores i st en out)
  from "1.prems"(2) have len: "length st = length A" and le: "i \<le> length A"
    by (simp_all add: match_inv_def)
  show ?case
  proof (cases "i < length st")
    case False
    with "1.prems"(1) have "st' = st" "en' = en" "out' = out"
      by (subst (asm) match_loop.simps; simp)+
    moreover from False len le have "i = length A" by simp
    ultimately show ?thesis using "1.prems"(2) by simp
  next
    case True
    with len have iA: "i < length A" by simp
    show ?thesis
    proof (cases "inner_loop (xHandle (st ! i)) en 0")
      case None
      with True "1.prems"(1) have run: "match_loop elapsed cores (Suc i) st en out = Inr (st', en', out')"
        by (subst (asm) match_loop.simps) simp
      from inv_no_match [OF "1.prems"(2) iA None]
      have "match_inv A B elapsed cores (Suc i) st en out" .
      from "1.IH"(1) [OF True None run this "1.prems"(3)] show ?thesis .
    next
      case (Some k)
      let ?st1 = "st[i := (st ! i)\<lparr>xHandle := NULL\<rparr>]"
      let ?en1 = "en[k := (en ! k)\<lparr>xHandle := NULL\<rparr>]"
      let ?t = "ulRunTimeCounter (?en1 ! k) - ulRunTimeCounter (?st1 ! i)"
      let ?out1 = "out @ [Usage i k (pcTaskName (?st1 ! i)) ?t ((?t * 100) div (elapsed * cores))]"
      from True Some "1.prems"(1) have nz: "elapsed * cores \<noteq> 0"
        by (subst (asm) match_loop.simps) (auto simp: Let_def split: if_splits)
      with True Some "1.prems"(1) have run: "match_loop elapsed cores (Suc i) ?st1 ?en1 ?out1 = Inr (st', en', out')"
        by (subst (asm) match_loop.simps) (simp add: Let_def)
      from inv_match [OF "1.prems"(2,3) iA Some nz]
      have "match_inv A B elapsed cores (Suc i) ?st1 ?en1 ?out1" .
      from "1.IH"(2) [OF True Some refl refl refl nz run this "1.prems"(3)] show ?thesis .
    qed
  qed
qed






lemma spec_env_run:
  "PrintTaskCpuUsage 1 spec_env =
     Inr (ESP_OK, [Header, Usage 0 0 ''task1'' 50 83, Usage 1 1 ''task2'' 40 66, Created 2 ''task3''])"
  by (simp add: PrintTaskCpuUsage_def spec_env_def task_def match_loop.simps inner_loop.simps
      deleted_lines_def created_lines_def NULL_def Let_def upt_conv_Cons)

lemma nulled_empty: "nulled A {} = A"
  by (simp add: nulled_def map_nth)

lemma usage_ok_projections:
  assumes "\<forall>l\<in>set out. usage_ok A B elapsed cores l"
  shows "List.map_filter deleted_at out = []" and "List.map_filter created_at out = []"
proof -
  have "deleted_at l = None \<and> created_at l = None" if "l \<in> set out" for l
    using assms that by (cases l) (auto simp: usage_ok_def)
  then show "List.map_filter deleted_at out = []" and "List.map_filter created_at out = []"
    by (simp_all add: List.map_filter_def)
qed

lemma deleted_lines_projections:
  "List.map_filter deleted_at (deleted_lines st) = filter (\<lambda>x. xHandle (st ! x) \<noteq> NULL) [0..<length st]"
  "List.map_filter created_at (deleted_lines st) = []"
  "List.map_filter usage_start (deleted_lines st) = []"
  "List.map_filter usage_end (deleted_lines st) = []"
proof -
  have a: "List.map_filter deleted_at (concat (map (\<lambda>i. if P i then [Deleted i (f i)] else []) xs)) = filter P xs"
    for P f and xs :: "nat list"
    by (induction xs) (simp_all add: List.map_filter_def)
  have b: "List.map_filter g (concat (map (\<lambda>i. if P i then [Deleted i (f i)] else []) xs)) = []"
    if "\<And>i n. g (Deleted i n) = None" for P f g and xs :: "nat list"
    using that by (induction xs) (simp_all add: List.map_filter_def)
  show "List.map_filter deleted_at (deleted_lines st) = filter (\<lambda>x. xHandle (st ! x) \<noteq> NULL) [0..<length st]"
    unfolding deleted_lines_def by (rule a)
  show "List.map_filter created_at (deleted_lines st) = []"
    unfolding deleted_lines_def by (rule b) simp
  show "List.map_filter usage_start (deleted_lines st) = []"
    unfolding deleted_lines_def by (rule b) simp
  show "List.map_filter usage_end (deleted_lines st) = []"
    unfolding deleted_lines_def by (rule b) simp
qed

lemma created_lines_projections:
  "List.map_filter created_at (created_lines en) = filter (\<lambda>x. xHandle (en ! x) \<noteq> NULL) [0..<length en]"
  "List.map_filter deleted_at (created_lines en) = []"
  "List.map_filter usage_start (created_lines en) = []"
  "List.map_filter usage_end (created_lines en) = []"
proof -
  have a: "List.map_filter created_at (concat (map (\<lambda>i. if P i then [Created i (f i)] else []) xs)) = filter P xs"
    for P f and xs :: "nat list"
    by (induction xs) (simp_all add: List.map_filter_def)
  have b: "List.map_filter g (concat (map (\<lambda>i. if P i then [Created i (f i)] else []) xs)) = []"
    if "\<And>i n. g (Created i n) = None" for P f g and xs :: "nat list"
    using that by (induction xs) (simp_all add: List.map_filter_def)
  show "List.map_filter created_at (created_lines en) = filter (\<lambda>x. xHandle (en ! x) \<noteq> NULL) [0..<length en]"
    unfolding created_lines_def by (rule a)
  show "List.map_filter deleted_at (created_lines en) = []"
    unfolding created_lines_def by (rule b) simp
  show "List.map_filter usage_start (created_lines en) = []"
    unfolding created_lines_def by (rule b) simp
  show "List.map_filter usage_end (created_lines en) = []"
    unfolding created_lines_def by (rule b) simp
qed

lemma unmarked_nulled:
  assumes "valid_handles A"
  shows "filter (\<lambda>x. xHandle (nulled A M ! x) \<noteq> NULL) [0..<length (nulled A M)] =
         filter (\<lambda>x. x \<notin> M) [0..<length A]"
proof -
  have "xHandle (nulled A M ! x) \<noteq> NULL \<longleftrightarrow> x \<notin> M" if "x < length A" for x
    using that assms by (simp add: nth_nulled valid_handles_def)
  then show ?thesis
    by (auto intro: filter_cong)
qed

lemma sampler_success_shape:
  assumes "PrintTaskCpuUsage cores env = Inr (ESP_OK, out)"
  obtains st' en' out' where
    "match_loop (snd (state_end env) - snd (state_start env)) cores 0
        (fst (state_start env)) (fst (state_end env)) [Header] = Inr (st', en', out')"
    and "out = out' @ deleted_lines st' @ created_lines en'"
proof -
  obtain A rt1 where A: "state_start env = (A, rt1)" by (cases "state_start env")
  obtain B rt2 where B: "state_end env = (B, rt2)" by (cases "state_end env")
  from assms A B obtain st' en' out' where
    "match_loop (rt2 - rt1) cores 0 A B [Header] = Inr (st', en', out')"
    "out = out' @ deleted_lines st' @ created_lines en'"
    by (auto simp: PrintTaskCpuUsage_def Let_def split: if_splits sum.splits)
  with A B that [of st' en' out'] show ?thesis
    by simp
qed

lemma valid_spec_env:
  "valid_handles (fst (state_start spec_env))" "valid_handles (fst (state_end spec_env))"
  by (simp_all add: valid_handles_def spec_env_def task_def NULL_def)

lemma match_loop_returns:
  "elapsed * cores \<noteq> 0 \<Longrightarrow> \<exists>res. match_loop elapsed cores i st en out = Inr res"
proof (induction elapsed cores i st en out rule: match_loop.induct)
  case (1 elapsed cores i st en out)
  show ?case
  proof (cases "i < length st")
    case False
    then show ?thesis by (subst match_loop.simps) simp
  next
    case True
    show ?thesis
    proof (cases "inner_loop (xHandle (st ! i)) en 0")
      case None
      from "1.IH"(1) [OF True None "1.prems"] True None show ?thesis
        by (subst match_loop.simps) simp
    next
      case (Some k)
      from "1.IH"(2) [OF True Some refl refl refl "1.prems" "1.prems"] True Some "1.prems" show ?thesis
        by (subst match_loop.simps) (simp add: Let_def)
    qed
  qed
qed

lemma sampler_error_codes:
  "PrintTaskCpuUsage cores env = Inr (ESP_ERR_NO_MEM, out) \<longleftrightarrow>
     out = [] \<and> (\<not> malloc_start env \<or> fst (state_start env) \<noteq> [] \<and> \<not> malloc_end env)"
  "PrintTaskCpuUsage cores env = Inr (ESP_ERR_INVALID_SIZE, out) \<longleftrightarrow>
     out = [] \<and> malloc_start env \<and>
     (fst (state_start env) = [] \<or> malloc_end env \<and> fst (state_end env) = [])"
  "PrintTaskCpuUsage cores env = Inr (ESP_ERR_INVALID_STATE, out) \<longleftrightarrow>
     out = [] \<and> malloc_start env \<and> fst (state_start env) \<noteq> [] \<and> malloc_end env \<and>
     fst (state_end env) \<noteq> [] \<and> snd (state_end env) - snd (state_start env) = 0"
  by (auto simp: PrintTaskCpuUsage_def Let_def split: prod.splits sum.splits)

lemma sampler_returns_unless_divisor_wraps:
  assumes "(snd (state_end env) - snd (state_start env)) * cores \<noteq> 0
           \<or> snd (state_end env) - snd (state_start env) = 0"
  shows "\<exists>ret out. PrintTaskCpuUsage cores env = Inr (ret, out)"
proof -
  obtain A rt1 where A: "state_start env = (A, rt1)" by (cases "state_start env")
  obtain B rt2 where B: "state_end env = (B, rt2)" by (cases "state_end env")
  show ?thesis
  proof (cases "rt2 - rt1 = 0")
    case True
    with A B show ?thesis by (simp add: PrintTaskCpuUsage_def)
  next
    case False
    with assms A B have "(rt2 - rt1) * cores \<noteq> 0" by simp
    from match_loop_returns [OF this, of 0 A B "[Header]"] obtain res where
      "match_loop (rt2 - rt1) cores 0 A B [Header] = Inr res" ..
    with A B show ?thesis
      by (cases res) (simp add: PrintTaskCpuUsage_def Let_def)
  qed
qed

lemma sampler_single_core_returns: "\<exists>ret out. PrintTaskCpuUsage 1 env = Inr (ret, out)"
  by (rule sampler_returns_unless_divisor_wraps) simp

section \<open>The claims about the device identifier\<close>

text \<open>
  C1. The claim: for every store state and hardware address \<^verbatim>\<open>GetMacAddress\<close> returns a
  non-empty string, also when the stored value is empty once its trailing NULs are stripped.
  The code does not do that. \<^verbatim>\<open>ReadUdidFromNvs\<close> tests \<^verbatim>\<open>length == 0\<close> before it strips,
  and the length the store reports counts the terminator; it does not test the stripped value.
  On a store whose identifier is the empty C string, with every store call succeeding,
  \<^verbatim>\<open>GetMacAddress\<close> takes its first \<^verbatim>\<open>return udid\<close> and returns the empty string, for
  every hardware address and random word.
\<close>

theorem C1_blank_identifier_is_returned:
  "GetMacAddress ok_call mac r blank_udid_store = ([], blank_udid_store)"
proof -
  have "ReadUdidFromNvs (ca_read ok_call) (entries blank_udid_store) = Some (strip_nul [NUL])"
    by (simp add: Read_works ok_call_def blank_udid_store_def)
  moreover have "strip_nul [NUL] = []"
    by (simp add: strip_nul_rev)
  ultimately show ?thesis
    by (simp add: Get_fast)
qed

text \<open>
  C2. If every store call of two successive \<^verbatim>\<open>GetMacAddress\<close> calls succeeds, then,
  whatever the store held before, whatever hardware address and random word each call
  reads, the second call returns the string the first one returned, it leaves the state as
  the first call left it, and \<^verbatim>\<open>nvs_set_str\<close> is called at most once in the two calls.
\<close>

theorem C2_second_call_repeats_first:
  assumes "call_works e1" and "call_works e2"
  shows "fst (GetMacAddress e2 mac2 r2 (snd (GetMacAddress e1 mac1 r1 s))) = fst (GetMacAddress e1 mac1 r1 s)
       \<and> snd (GetMacAddress e2 mac2 r2 (snd (GetMacAddress e1 mac1 r1 s))) = snd (GetMacAddress e1 mac1 r1 s)
       \<and> length (set_calls (snd (GetMacAddress e2 mac2 r2 (snd (GetMacAddress e1 mac1 r1 s)))))
            \<le> Suc (length (set_calls s))"
proof -
  from assms have w1: "read_works (ca_read e1)" "read_works (in_read (ca_init e1))"
      "write_works (in_write (ca_init e1))" "read_works (ca_reread e1)"
    and w2: "read_works (ca_read e2)"
    by (simp_all add: call_works_def init_works_def)
  show ?thesis
  proof (cases "ReadUdidFromNvs (ca_read e1) (entries s)")
    case (Some u)
    then have first: "GetMacAddress e1 mac1 r1 s = (u, s)" by (rule Get_fast)
    from Some w1(1) w2 have "ReadUdidFromNvs (ca_read e2) (entries s) = Some u"
      by (simp add: Read_works)
    then have "GetMacAddress e2 mac2 r2 s = (u, s)" by (rule Get_fast)
    with first show ?thesis by simp
  next
    case None
    let ?s1 = "InitializeUdid (ca_init e1) mac1 r1 s"
    let ?c = "candidate (in_wifi (ca_init e1)) mac1 r1 (entries s)"
    from None w1(1,2) have "ReadUdidFromNvs (in_read (ca_init e1)) (entries s) = None"
      by (simp add: Read_works)
    then have e1: "entries ?s1 = entries (WriteUdidToNvs (in_write (ca_init e1)) (FormatMac ?c) s)"
      and c1: "set_calls ?s1 = set_calls (WriteUdidToNvs (in_write (ca_init e1)) (FormatMac ?c) s)"
      by (rule Init_absent)+
    from e1 w1(3,4) have "ReadUdidFromNvs (ca_reread e1) (entries ?s1) = Some (FormatMac ?c)"
      by (simp add: Read_after_Write)
    with None have first: "GetMacAddress e1 mac1 r1 s = (FormatMac ?c, ?s1)"
      by (simp add: Get_slow)
    from e1 w1(3) w2 have "ReadUdidFromNvs (ca_read e2) (entries ?s1) = Some (FormatMac ?c)"
      by (simp add: Read_after_Write)
    then have second: "GetMacAddress e2 mac2 r2 ?s1 = (FormatMac ?c, ?s1)" by (rule Get_fast)
    from c1 have "length (set_calls ?s1) \<le> Suc (length (set_calls s))"
      by (simp add: set_calls_Write)
    with first second show ?thesis by simp
  qed
qed

theorem C2_second_call_repeats_first_witness:
  "fst (GetMacAddress ok_call spec_mac 0xABCDEF (snd (GetMacAddress ok_call spec_mac 0x12345678 fresh_store)))
     = ''78:56:34:dd:ee:ff''
   \<and> fst (GetMacAddress ok_call spec_mac 0x12345678 fresh_store) = ''78:56:34:dd:ee:ff''
   \<and> length (set_calls (snd (GetMacAddress ok_call spec_mac 0xABCDEF
        (snd (GetMacAddress ok_call spec_mac 0x12345678 fresh_store))))) \<le> Suc 0"
proof -
  have first: "fst (GetMacAddress ok_call spec_mac 0x12345678 fresh_store) = ''78:56:34:dd:ee:ff''"
    using Get_absent(1) [OF fresh_absent, of ok_call spec_mac "0x12345678"]
    by (simp add: fresh_candidate FormatMac_sample_prefix ok_call_def ok_init_def)
  have none: "set_calls fresh_store = []"
    by (simp add: fresh_store_def)
  from C2_second_call_repeats_first [of ok_call ok_call spec_mac "0xABCDEF" spec_mac "0x12345678" fresh_store]
  show ?thesis by (auto simp: first none)
qed

text \<open>
  C3. The claim: on every store that holds a non-empty identifier, every call of
  \<^verbatim>\<open>GetMacAddress\<close> and of \<^verbatim>\<open>InitializeUdid\<close> leaves the store unchanged. This fails
  for a call whose read of the identifier fails. \<^verbatim>\<open>ReadUdidFromNvs\<close> returns false when
  \<^verbatim>\<open>nvs_open\<close> or \<^verbatim>\<open>nvs_get_str\<close> fails, and both callers take that for an absent
  identifier. On a store that holds \<^verbatim>\<open>unit-7\<close>, with the reads before the write failing,
  every other store call succeeding and the random word 0x12345678, \<^verbatim>\<open>InitializeUdid\<close>
  writes \<^verbatim>\<open>78:56:34:dd:ee:ff\<close> over the stored identifier, and \<^verbatim>\<open>GetMacAddress\<close>
  returns the new value.
\<close>

theorem C3_failed_read_overwrites_counterexample:
  "entries kept_store (''device'', ''udid'') = Some (''unit-7'' @ [NUL])
   \<and> strip_nul (''unit-7'' @ [NUL]) = ''unit-7''
   \<and> fst (GetMacAddress lost_read_call spec_mac 0x12345678 kept_store) = ''78:56:34:dd:ee:ff''
   \<and> entries (snd (GetMacAddress lost_read_call spec_mac 0x12345678 kept_store)) (''device'', ''udid'')
        = Some (''78:56:34:dd:ee:ff'' @ [NUL])
   \<and> entries (InitializeUdid (ca_init lost_read_call) spec_mac 0x12345678 kept_store) (''device'', ''udid'')
        = Some (''78:56:34:dd:ee:ff'' @ [NUL])
   \<and> entries (InitializeUdid (ca_init lost_read_call) spec_mac 0x12345678 kept_store) \<noteq> entries kept_store"
proof -
  let ?s1 = "InitializeUdid (ca_init lost_read_call) spec_mac 0x12345678 kept_store"
  have held: "entries kept_store (''device'', ''udid'') = Some (''unit-7'' @ [NUL])"
    by (simp add: kept_store_def)
  have strip: "strip_nul (''unit-7'' @ [NUL]) = ''unit-7''"
    by (simp add: strip_nul_rev NUL_def)
  note run = failed_read_is_taken_for_absent
  have changed: "entries ?s1 \<noteq> entries kept_store"
  proof
    assume "entries ?s1 = entries kept_store"
    then have "entries ?s1 (''device'', ''udid'') = entries kept_store (''device'', ''udid'')"
      by simp
    with run(2) held show False by simp
  qed
  from held strip run changed show ?thesis by simp
qed

text \<open>
  C3, as amended. On a store that holds an identifier which is non-empty once its trailing
  NULs are stripped, every call whose read of the identifier succeeds leaves the store
  unchanged: \<^verbatim>\<open>GetMacAddress\<close> returns the stored value at its first \<^verbatim>\<open>return\<close> and
  leaves the whole state as it was, and \<^verbatim>\<open>InitializeUdid\<close> leaves the contents of the
  store as they were and calls \<^verbatim>\<open>nvs_set_str\<close> not once (it prints its log line). The
  statuses of every later store call, the hardware address and the random word are
  arbitrary.
\<close>

theorem C3_persisted_identifier_is_kept:
  assumes "entries s (''device'', ''udid'') = Some raw" and "strip_nul raw \<noteq> []"
    and "read_works (ca_read e)" and "read_works (in_read ie)"
  shows "GetMacAddress e mac r s = (strip_nul raw, s)
       \<and> entries (InitializeUdid ie mac r s) = entries s
       \<and> set_calls (InitializeUdid ie mac r s) = set_calls s"
proof -
  from assms(2) have "raw \<noteq> []" by (auto simp: strip_nul_Nil)
  with assms(1) have rd: "\<And>x. read_works x \<Longrightarrow> ReadUdidFromNvs x (entries s) = Some (strip_nul raw)"
    by (simp add: Read_works)
  from rd [OF assms(3)] have "GetMacAddress e mac r s = (strip_nul raw, s)" by (rule Get_fast)
  moreover from rd [OF assms(4)] have "entries (InitializeUdid ie mac r s) = entries s"
    and "set_calls (InitializeUdid ie mac r s) = set_calls s" by (rule Init_present)+
  ultimately show ?thesis by simp
qed

theorem C3_persisted_identifier_is_kept_witness:
  "GetMacAddress ok_call spec_mac 5 kept_store = (''unit-7'', kept_store)
   \<and> entries (InitializeUdid ok_init spec_mac 5 kept_store) = entries kept_store
   \<and> set_calls (InitializeUdid ok_init spec_mac 5 kept_store) = []"
proof -
  have a: "entries kept_store (''device'', ''udid'') = Some (''unit-7'' @ [NUL])"
    by (simp add: kept_store_def)
  have b: "strip_nul (''unit-7'' @ [NUL]) \<noteq> []"
    by (simp add: strip_nul_rev NUL_def)
  have c: "read_works (ca_read ok_call)" "read_works (in_read ok_init)"
    by (simp_all add: ok_call_def ok_init_def)
  from C3_persisted_identifier_is_kept [OF a b c, of spec_mac 5]
  show ?thesis by (simp add: strip_nul_rev NUL_def kept_store_def)
qed

text \<open>
  C4. The store holds no identifier, one of the ten credential keys \<^verbatim>\<open>ssid\<close>,
  \<^verbatim>\<open>ssid1\<close>, ..., \<^verbatim>\<open>ssid9\<close> holds a non-empty value which the check reads, and the
  hardware address is AA:BB:CC:DD:EE:FF. Then \<^verbatim>\<open>GetMacAddress\<close> returns the 17 characters
  \<^verbatim>\<open>aa:bb:cc:dd:ee:ff\<close>, and where the write succeeds the store holds that token under the
  identifier key afterwards.
\<close>

theorem C4_provisioned_device_persists_hardware_token:
  assumes "entries s (''device'', ''udid'') = None"
    and "i < 10" and "entries s (''wifi'', slot_keys ! i) = Some v" and "v \<noteq> []"
    and "wf_open (in_wifi (ca_init e))" and "wf_size (in_wifi (ca_init e)) i"
  shows "fst (GetMacAddress e spec_mac r s) = ''aa:bb:cc:dd:ee:ff''
       \<and> length (fst (GetMacAddress e spec_mac r s)) = 17
       \<and> (write_works (in_write (ca_init e)) \<longrightarrow>
            entries (snd (GetMacAddress e spec_mac r s)) (''device'', ''udid'')
              = Some (''aa:bb:cc:dd:ee:ff'' @ [NUL]))"
proof -
  let ?w = "in_write (ca_init e)"
  let ?s1 = "InitializeUdid (ca_init e) spec_mac r s"
  from assms(1) have none: "\<And>x. ReadUdidFromNvs x (entries s) = None"
    by (simp add: Read_absent)
  from assms(2-6) have "HasWifiConfigInNvs (in_wifi (ca_init e)) (entries s)"
    unfolding HasWifi_iff using ssid_key_slot [of i]
    by (auto simp: kMaxWifiSsidCount_def kWifiNamespace_def)
  then have cand: "candidate (in_wifi (ca_init e)) spec_mac r (entries s) = spec_mac"
    by (simp add: candidate_def)
  from none cand have e1: "entries ?s1 = entries (WriteUdidToNvs ?w (FormatMac spec_mac) s)"
    by (simp add: Init_absent)
  have get: "GetMacAddress e spec_mac r s =
      (case ReadUdidFromNvs (ca_reread e) (entries ?s1) of Some u \<Rightarrow> u | None \<Rightarrow> FormatMac spec_mac, ?s1)"
    using none by (simp add: Get_slow)
  have ret: "fst (GetMacAddress e spec_mac r s) = FormatMac spec_mac"
  proof (cases "write_works ?w \<and> read_works (ca_reread e)")
    case True
    with e1 have "ReadUdidFromNvs (ca_reread e) (entries ?s1) = Some (FormatMac spec_mac)"
      by (simp add: Read_after_Write)
    with get show ?thesis by simp
  next
    case False
    then have "ReadUdidFromNvs (ca_reread e) (entries ?s1) = None"
    proof (cases "write_works ?w")
      case True
      with False show ?thesis by (simp add: Read_fails)
    next
      case False
      with e1 none show ?thesis by (simp add: entries_Write)
    qed
    with get show ?thesis by simp
  qed
  moreover have "write_works ?w \<Longrightarrow> entries ?s1 (''device'', ''udid'') = Some (''aa:bb:cc:dd:ee:ff'' @ [NUL])"
    using e1 c_str_FormatMac [of spec_mac] by (simp add: entries_Write FormatMac_spec_mac)
  ultimately show ?thesis
    using get by (simp add: FormatMac_spec_mac)
qed

theorem C4_provisioned_device_persists_hardware_token_witness:
  "fst (GetMacAddress ok_call spec_mac 0x12345678 home_store) = ''aa:bb:cc:dd:ee:ff''
   \<and> entries (snd (GetMacAddress ok_call spec_mac 0x12345678 home_store)) (''device'', ''udid'')
        = Some (''aa:bb:cc:dd:ee:ff'' @ [NUL])"
proof -
  have a: "entries home_store (''device'', ''udid'') = None"
    by (simp add: home_store_def)
  have b: "(2::nat) < 10" by simp
  have c: "entries home_store (''wifi'', slot_keys ! 2) = Some (''home'' @ [NUL])"
    by (simp add: home_store_def slot_keys_def)
  have d: "''home'' @ [NUL] \<noteq> []" by simp
  have f: "wf_open (in_wifi (ca_init ok_call))" "wf_size (in_wifi (ca_init ok_call)) 2"
    by (simp_all add: ok_call_def ok_init_def ok_wifi_def)
  have g: "write_works (in_write (ca_init ok_call))"
    by (simp add: ok_call_def ok_init_def)
  from C4_provisioned_device_persists_hardware_token [OF a b c d f, of "0x12345678"] g
  show ?thesis by simp
qed

text \<open>
  C5. The claim: if the store holds no identifier and no credential slot is non-empty, the
  identifier persisted is the three low bytes of the random word followed by \<^verbatim>\<open>dd:ee:ff\<close>.
  The code does that when every credential key is absent (\<open>random_prefix_is_persisted\<close>).
  It does not when a credential key holds the empty string: \<^verbatim>\<open>HasWifiConfigInNvs\<close> tests
  \<^verbatim>\<open>length > 0\<close>, and the length the store reports counts the terminator, so the empty
  string passes the test. On a store with no identifier whose key \<^verbatim>\<open>ssid\<close> holds the
  empty C string, with every store call succeeding, \<^verbatim>\<open>InitializeUdid\<close> takes the
  provisioned branch: for every random word the identifier persisted and returned is the
  token of the hardware address itself, \<^verbatim>\<open>aa:bb:cc:dd:ee:ff\<close>.
\<close>

theorem C5_blank_credential_takes_provisioned_path:
  "entries blank_ssid_store (''device'', ''udid'') = None
   \<and> entries blank_ssid_store (''wifi'', ''ssid'') = Some [NUL]
   \<and> strip_nul [NUL] = []
   \<and> fst (GetMacAddress ok_call spec_mac r blank_ssid_store) = ''aa:bb:cc:dd:ee:ff''
   \<and> entries (snd (GetMacAddress ok_call spec_mac r blank_ssid_store)) (''device'', ''udid'')
        = Some (''aa:bb:cc:dd:ee:ff'' @ [NUL])"
proof -
  have absent: "entries blank_ssid_store (''device'', ''udid'') = None"
    and slot: "entries blank_ssid_store (''wifi'', ''ssid'') = Some [NUL]"
    by (simp_all add: blank_ssid_store_def)
  have strip: "strip_nul [NUL] = []"
    by (simp add: strip_nul_rev)
  have "ssid_key 0 = ''ssid''"
    by (simp add: ssid_key_def)
  with slot have "HasWifiConfigInNvs (in_wifi (ca_init ok_call)) (entries blank_ssid_store)"
    unfolding HasWifi_iff
    by (auto simp: ok_call_def ok_init_def ok_wifi_def kMaxWifiSsidCount_def kWifiNamespace_def
        intro!: exI [of _ 0])
  then have cand: "candidate (in_wifi (ca_init ok_call)) spec_mac r (entries blank_ssid_store) = spec_mac"
    by (simp add: candidate_def)
  have w: "write_works (in_write (ca_init ok_call))" "read_works (ca_reread ok_call)"
    by (simp_all add: ok_call_def ok_init_def)
  from Get_absent(1,2) [OF absent, of ok_call spec_mac r] cand w
  have "fst (GetMacAddress ok_call spec_mac r blank_ssid_store) = ''aa:bb:cc:dd:ee:ff''"
    and "entries (snd (GetMacAddress ok_call spec_mac r blank_ssid_store)) (''device'', ''udid'')
        = Some (''aa:bb:cc:dd:ee:ff'' @ [NUL])"
    by (simp_all add: FormatMac_spec_mac)
  with absent slot strip show ?thesis by simp
qed

text \<open>
  C6. The claim: if the persist or the confirming re-read fails after the derivation,
  \<^verbatim>\<open>GetMacAddress\<close> returns the token of the hardware address, nothing is cached in the
  store, and the next call on a working store runs the derivation again. This fails where
  the persist succeeds and only the re-read of \<^verbatim>\<open>GetMacAddress\<close> fails: on an empty
  store, with the random word 0x12345678, the call returns \<^verbatim>\<open>aa:bb:cc:dd:ee:ff\<close> and
  leaves \<^verbatim>\<open>78:56:34:dd:ee:ff\<close> in the store; the next call, whose store works and whose
  random word 0xABCDEF would give \<^verbatim>\<open>ef:cd:ab:dd:ee:ff\<close>, returns the remembered
  \<^verbatim>\<open>78:56:34:dd:ee:ff\<close> and changes nothing.
\<close>

theorem C6_lost_reread_keeps_candidate_counterexample:
  "fst (GetMacAddress lost_reread_call spec_mac 0x12345678 fresh_store) = ''aa:bb:cc:dd:ee:ff''
   \<and> entries (snd (GetMacAddress lost_reread_call spec_mac 0x12345678 fresh_store)) (''device'', ''udid'')
        = Some (''78:56:34:dd:ee:ff'' @ [NUL])
   \<and> entries (snd (GetMacAddress lost_reread_call spec_mac 0x12345678 fresh_store)) \<noteq> entries fresh_store
   \<and> GetMacAddress ok_call spec_mac 0xABCDEF (snd (GetMacAddress lost_reread_call spec_mac 0x12345678 fresh_store))
        = (''78:56:34:dd:ee:ff'', snd (GetMacAddress lost_reread_call spec_mac 0x12345678 fresh_store))
   \<and> FormatMac (candidate ok_wifi spec_mac 0xABCDEF (entries fresh_store)) = ''ef:cd:ab:dd:ee:ff''"
proof -
  let ?s1 = "InitializeUdid (ca_init lost_reread_call) spec_mac 0x12345678 fresh_store"
  have w: "write_works (in_write (ca_init lost_reread_call))" "\<not> read_works (ca_reread lost_reread_call)"
    by (simp_all add: lost_reread_call_def ok_init_def)
  have first: "GetMacAddress lost_reread_call spec_mac 0x12345678 fresh_store = (''aa:bb:cc:dd:ee:ff'', ?s1)"
    using Get_absent(1) [OF fresh_absent, of lost_reread_call spec_mac "0x12345678"] w
    by (simp add: FormatMac_spec_mac)
  have stored: "entries ?s1 = (entries fresh_store)((''device'', ''udid'') \<mapsto> ''78:56:34:dd:ee:ff'' @ [NUL])"
    using Get_absent(2) [OF fresh_absent, of lost_reread_call spec_mac "0x12345678"] w
    by (simp add: fresh_candidate FormatMac_sample_prefix)
  have changed: "entries ?s1 \<noteq> entries fresh_store"
  proof
    assume "entries ?s1 = entries fresh_store"
    then have "entries ?s1 (''device'', ''udid'') = entries fresh_store (''device'', ''udid'')" by simp
    with stored show False by (simp add: fresh_absent)
  qed
  have "ReadUdidFromNvs (ca_read ok_call) (entries ?s1) = Some (strip_nul (''78:56:34:dd:ee:ff'' @ [NUL]))"
    by (simp add: Read_works stored ok_call_def)
  moreover have "strip_nul (''78:56:34:dd:ee:ff'' @ [NUL]) = ''78:56:34:dd:ee:ff''"
    by (simp add: strip_nul_rev NUL_def)
  ultimately have second: "GetMacAddress ok_call spec_mac 0xABCDEF ?s1 = (''78:56:34:dd:ee:ff'', ?s1)"
    by (simp add: Get_fast)
  from first stored changed second show ?thesis
    by (simp add: fresh_candidate FormatMac_second_prefix)
qed

text \<open>
  C6, as amended. The store holds no identifier, and the persist or the re-read of
  \<^verbatim>\<open>GetMacAddress\<close> fails. Then the call returns the token of the hardware address, a
  well-formed token. Where the persist failed, the contents of the store are unchanged and a
  next call whose store calls all succeed derives again: it returns the token of its own
  candidate and hands it to \<^verbatim>\<open>nvs_set_str\<close>. Where the persist succeeded, the candidate
  of the failed call is in the store, and such a next call returns it and changes nothing.
\<close>

theorem C6_fallback_after_failed_persist:
  assumes "entries s (''device'', ''udid'') = None"
    and "\<not> write_works (in_write (ca_init e)) \<or> \<not> read_works (ca_reread e)"
    and "call_works e2"
  shows "fst (GetMacAddress e mac r s) = FormatMac mac
       \<and> is_mac_token (fst (GetMacAddress e mac r s))
       \<and> (\<not> write_works (in_write (ca_init e)) \<longrightarrow>
            entries (snd (GetMacAddress e mac r s)) = entries s
            \<and> fst (GetMacAddress e2 mac2 r2 (snd (GetMacAddress e mac r s)))
                = FormatMac (candidate (in_wifi (ca_init e2)) mac2 r2 (entries s))
            \<and> set_calls (snd (GetMacAddress e2 mac2 r2 (snd (GetMacAddress e mac r s))))
                = set_calls (snd (GetMacAddress e mac r s))
                  @ [(''device'', ''udid'', FormatMac (candidate (in_wifi (ca_init e2)) mac2 r2 (entries s)), True)])
       \<and> (write_works (in_write (ca_init e)) \<longrightarrow>
            entries (snd (GetMacAddress e mac r s)) (''device'', ''udid'')
                = Some (FormatMac (candidate (in_wifi (ca_init e)) mac r (entries s)) @ [NUL])
            \<and> GetMacAddress e2 mac2 r2 (snd (GetMacAddress e mac r s))
                = (FormatMac (candidate (in_wifi (ca_init e)) mac r (entries s)), snd (GetMacAddress e mac r s)))"
proof -
  let ?s1 = "InitializeUdid (ca_init e) mac r s"
  let ?c = "candidate (in_wifi (ca_init e)) mac r (entries s)"
  note ga = Get_absent [OF assms(1), of e mac r]
  from assms(3) have w2: "read_works (ca_read e2)" "write_works (in_write (ca_init e2))"
      "read_works (ca_reread e2)" "wr_open (in_write (ca_init e2))" "wr_set (in_write (ca_init e2))"
    by (simp_all add: call_works_def init_works_def write_works_def)
  from ga(1) assms(2) have first: "GetMacAddress e mac r s = (FormatMac mac, ?s1)"
    by auto
  have lost: "entries ?s1 = entries s
      \<and> fst (GetMacAddress e2 mac2 r2 ?s1) = FormatMac (candidate (in_wifi (ca_init e2)) mac2 r2 (entries s))
      \<and> set_calls (snd (GetMacAddress e2 mac2 r2 ?s1)) = set_calls ?s1
           @ [(''device'', ''udid'', FormatMac (candidate (in_wifi (ca_init e2)) mac2 r2 (entries s)), True)]"
    if nw: "\<not> write_works (in_write (ca_init e))"
  proof -
    from ga(2) nw have same: "entries ?s1 = entries s" by simp
    with assms(1) have "entries ?s1 (''device'', ''udid'') = None" by simp
    from Get_absent [OF this, of e2 mac2 r2] w2 same show ?thesis by simp
  qed
  have kept: "entries ?s1 (''device'', ''udid'') = Some (FormatMac ?c @ [NUL])
      \<and> GetMacAddress e2 mac2 r2 ?s1 = (FormatMac ?c, ?s1)"
    if w: "write_works (in_write (ca_init e))"
  proof -
    from ga(2) w have st: "entries ?s1 (''device'', ''udid'') = Some (FormatMac ?c @ [NUL])" by simp
    with w2(1) have "ReadUdidFromNvs (ca_read e2) (entries ?s1) = Some (FormatMac ?c)"
      using stored_FormatMac [of ?c] by (simp add: Read_works c_str_FormatMac)
    then have "GetMacAddress e2 mac2 r2 ?s1 = (FormatMac ?c, ?s1)" by (rule Get_fast)
    with st show ?thesis by simp
  qed
  from first lost kept show ?thesis
    by (simp add: is_mac_token_FormatMac)
qed

theorem C6_fallback_after_failed_persist_witness:
  "fst (GetMacAddress lost_write_call spec_mac 0x12345678 fresh_store) = ''aa:bb:cc:dd:ee:ff''
   \<and> is_mac_token (fst (GetMacAddress lost_write_call spec_mac 0x12345678 fresh_store))
   \<and> entries (snd (GetMacAddress lost_write_call spec_mac 0x12345678 fresh_store)) = entries fresh_store
   \<and> fst (GetMacAddress ok_call spec_mac 0xABCDEF
            (snd (GetMacAddress lost_write_call spec_mac 0x12345678 fresh_store))) = ''ef:cd:ab:dd:ee:ff''"
proof -
  have b: "\<not> write_works (in_write (ca_init lost_write_call)) \<or> \<not> read_works (ca_reread lost_write_call)"
    by (simp add: lost_write_call_def)
  have c: "call_works ok_call" by simp
  have d: "\<not> write_works (in_write (ca_init lost_write_call))"
    by (simp add: lost_write_call_def)
  from C6_fallback_after_failed_persist [OF fresh_absent b c, of spec_mac "0x12345678" spec_mac "0xABCDEF"] d
    is_mac_token_FormatMac [of spec_mac]
  show ?thesis
    by (simp add: fresh_candidate FormatMac_second_prefix FormatMac_spec_mac)
qed

text \<open>
  C10. The claim: on the unprovisioned path, if the persist or the re-read of the random
  candidate fails, \<^verbatim>\<open>GetMacAddress\<close> returns the token of the unmodified hardware
  address, and the candidate is discarded. The candidate is not discarded where the persist
  succeeds and only the re-read of \<^verbatim>\<open>GetMacAddress\<close> fails: on an empty store, with the
  random word 0x12345678, the call returns \<^verbatim>\<open>aa:bb:cc:dd:ee:ff\<close>, the candidate
  \<^verbatim>\<open>78:56:34:dd:ee:ff\<close> stays in the store, and the next call, whose store works,
  returns it.
\<close>

theorem C10_lost_reread_candidate_not_discarded_counterexample:
  "entries fresh_store (''device'', ''udid'') = None
   \<and> \<not> read_works (ca_reread lost_reread_call)
   \<and> fst (GetMacAddress lost_reread_call spec_mac 0x12345678 fresh_store) = ''aa:bb:cc:dd:ee:ff''
   \<and> FormatMac (randomize_prefix 0x12345678 spec_mac) = ''78:56:34:dd:ee:ff''
   \<and> entries (snd (GetMacAddress lost_reread_call spec_mac 0x12345678 fresh_store)) (''device'', ''udid'')
        = Some (''78:56:34:dd:ee:ff'' @ [NUL])
   \<and> fst (GetMacAddress ok_call spec_mac 0xABCDEF
            (snd (GetMacAddress lost_reread_call spec_mac 0x12345678 fresh_store))) = ''78:56:34:dd:ee:ff''"
proof -
  let ?s1 = "InitializeUdid (ca_init lost_reread_call) spec_mac 0x12345678 fresh_store"
  have w: "write_works (in_write (ca_init lost_reread_call))" "\<not> read_works (ca_reread lost_reread_call)"
    by (simp_all add: lost_reread_call_def ok_init_def)
  have first: "GetMacAddress lost_reread_call spec_mac 0x12345678 fresh_store = (''aa:bb:cc:dd:ee:ff'', ?s1)"
    using Get_absent(1) [OF fresh_absent, of lost_reread_call spec_mac "0x12345678"] w
    by (simp add: FormatMac_spec_mac)
  have stored: "entries ?s1 (''device'', ''udid'') = Some (''78:56:34:dd:ee:ff'' @ [NUL])"
    using Get_absent(2) [OF fresh_absent, of lost_reread_call spec_mac "0x12345678"] w
    by (simp add: fresh_candidate FormatMac_sample_prefix)
  have "strip_nul (''78:56:34:dd:ee:ff'' @ [NUL]) = ''78:56:34:dd:ee:ff''"
    by (simp add: strip_nul_rev NUL_def)
  with stored have "ReadUdidFromNvs (ca_read ok_call) (entries ?s1) = Some ''78:56:34:dd:ee:ff''"
    by (simp add: Read_works ok_call_def)
  then have second: "GetMacAddress ok_call spec_mac 0xABCDEF ?s1 = (''78:56:34:dd:ee:ff'', ?s1)"
    by (rule Get_fast)
  from fresh_absent w(2) first stored second show ?thesis
    by (simp add: FormatMac_sample_prefix)
qed

text \<open>
  C10, as amended. The store holds no identifier and none of the ten credential keys is
  reported with a positive length, and the persist fails or the re-read of
  \<^verbatim>\<open>GetMacAddress\<close> (the one whose value it would return) fails. Then \<^verbatim>\<open>GetMacAddress\<close>
  returns the token of the unmodified hardware address, while the only value handed to
  \<^verbatim>\<open>nvs_set_str\<close>, if the namespace opened, was the token with the random prefix. Where
  the persist failed, the contents of the store are unchanged: the candidate is discarded.
  Where the persist succeeded, the candidate is in the store, and a later call whose read
  of the identifier succeeds returns it and changes nothing.
\<close>

theorem C10_fallback_returns_raw_hardware_token:
  assumes "entries s (''device'', ''udid'') = None"
    and "\<forall>i<10. entries s (''wifi'', slot_keys ! i) = None \<or> entries s (''wifi'', slot_keys ! i) = Some []"
    and "\<not> write_works (in_write (ca_init e)) \<or> \<not> read_works (ca_reread e)"
  shows "fst (GetMacAddress e mac r s) = FormatMac mac
       \<and> set_calls (snd (GetMacAddress e mac r s)) =
           (if wr_open (in_write (ca_init e))
            then set_calls s @ [(''device'', ''udid'', FormatMac (randomize_prefix r mac), wr_set (in_write (ca_init e)))]
            else set_calls s)
       \<and> (\<not> write_works (in_write (ca_init e)) \<longrightarrow>
            entries (snd (GetMacAddress e mac r s)) = entries s)
       \<and> (write_works (in_write (ca_init e)) \<longrightarrow>
            entries (snd (GetMacAddress e mac r s)) (''device'', ''udid'')
              = Some (FormatMac (randomize_prefix r mac) @ [NUL])
            \<and> (read_works (ca_read e2) \<longrightarrow>
                 GetMacAddress e2 mac2 r2 (snd (GetMacAddress e mac r s))
                   = (FormatMac (randomize_prefix r mac), snd (GetMacAddress e mac r s))))"
proof -
  let ?s1 = "InitializeUdid (ca_init e) mac r s"
  let ?c = "randomize_prefix r mac"
  from assms(2) have cand: "candidate (in_wifi (ca_init e)) mac r (entries s) = ?c"
    by (simp add: candidate_def no_slot_no_wifi)
  note ga = Get_absent [OF assms(1), of e mac r]
  from ga(1) assms(3) have first: "GetMacAddress e mac r s = (FormatMac mac, ?s1)"
    by auto
  from ga(3) cand have calls: "set_calls ?s1 =
      (if wr_open (in_write (ca_init e))
       then set_calls s @ [(''device'', ''udid'', FormatMac ?c, wr_set (in_write (ca_init e)))]
       else set_calls s)"
    by simp
  from ga(2) have lost: "entries ?s1 = entries s" if "\<not> write_works (in_write (ca_init e))"
    using that by simp
  have kept: "entries ?s1 (''device'', ''udid'') = Some (FormatMac ?c @ [NUL])
      \<and> (read_works (ca_read e2) \<longrightarrow> GetMacAddress e2 mac2 r2 ?s1 = (FormatMac ?c, ?s1))"
    if w: "write_works (in_write (ca_init e))"
  proof -
    from ga(2) w cand have st: "entries ?s1 (''device'', ''udid'') = Some (FormatMac ?c @ [NUL])"
      by simp
    have "GetMacAddress e2 mac2 r2 ?s1 = (FormatMac ?c, ?s1)" if "read_works (ca_read e2)"
    proof -
      from st that have "ReadUdidFromNvs (ca_read e2) (entries ?s1) = Some (FormatMac ?c)"
        using stored_FormatMac [of ?c] by (simp add: Read_works c_str_FormatMac)
      then show ?thesis by (rule Get_fast)
    qed
    with st show ?thesis by simp
  qed
  from first calls lost kept show ?thesis by simp
qed

theorem C10_fallback_returns_raw_hardware_token_witness:
  "fst (GetMacAddress lost_write_call spec_mac 0x12345678 fresh_store) = ''aa:bb:cc:dd:ee:ff''
   \<and> set_calls (snd (GetMacAddress lost_write_call spec_mac 0x12345678 fresh_store))
        = [(''device'', ''udid'', ''78:56:34:dd:ee:ff'', False)]
   \<and> entries (snd (GetMacAddress lost_write_call spec_mac 0x12345678 fresh_store)) = entries fresh_store"
proof -
  have b: "\<not> write_works (in_write (ca_init lost_write_call)) \<or> \<not> read_works (ca_reread lost_write_call)"
    by (simp add: lost_write_call_def)
  have d: "\<not> write_works (in_write (ca_init lost_write_call))"
    by (simp add: lost_write_call_def)
  have o: "wr_open (in_write (ca_init lost_write_call))" "\<not> wr_set (in_write (ca_init lost_write_call))"
    by (simp_all add: lost_write_call_def bad_write_def)
  have n: "set_calls fresh_store = []"
    by (simp add: fresh_store_def)
  from C10_fallback_returns_raw_hardware_token [OF fresh_absent fresh_store_no_slot b, of spec_mac "0x12345678"] d o
  show ?thesis
    by (simp add: FormatMac_spec_mac FormatMac_sample_prefix n)
qed

section \<open>The claims about the sampler\<close>

text \<open>
  C7. The claim: \<^verbatim>\<open>PrintTaskCpuUsage\<close> returns \<^verbatim>\<open>ESP_ERR_NO_MEM\<close>,
  \<^verbatim>\<open>ESP_ERR_INVALID_SIZE\<close> or \<^verbatim>\<open>ESP_ERR_INVALID_STATE\<close> exactly in the three cases it
  names, returns success in every other case, and has no other result. The three error
  codes are as claimed (\<open>sampler_error_codes\<close>), and the function returns whenever the 32-bit
  product \<^verbatim>\<open>total_elapsed_time * CONFIG_FREERTOS_NUMBER_OF_CORES\<close> is not zero, so always on
  one core (\<open>sampler_returns_unless_divisor_wraps\<close>, \<open>sampler_single_core_returns\<close>). But the
  source guards the division by testing \<^verbatim>\<open>total_elapsed_time == 0\<close> only. On two cores,
  with the global counter 0 at the first capture and 0x80000000 at the second, and one task
  present in both captures, the product wraps to zero and the percentage of the matched task
  is a division by zero: no code is returned.
\<close>

theorem C7_divisor_wraps_to_zero: "PrintTaskCpuUsage 2 wrap_env = Inl DivideByZero"
  by (simp add: PrintTaskCpuUsage_def wrap_env_def task_def match_loop.simps inner_loop.simps
      NULL_def Let_def)



text \<open>
  C9. \<^verbatim>\<open>PrintTaskCpuUsage\<close> has returned success on two captures whose handles are not
  \<open>NULL\<close>. Then no entry of the second capture and no entry of the first is in two matched
  lines, and the two entries of a matched line have the same handle; the lines tagged as
  deleted are, in order and once each, the entries of the first capture that are in no
  matched line, and the lines tagged as created are those of the second capture that are
  in no matched line; so no entry has both a percentage and a tag; and no entry left
  without a match in the first capture has the handle of an entry left without a match in
  the second.
\<close>

theorem C9_matching_is_one_to_one:
  assumes run: "PrintTaskCpuUsage cores env = Inr (ESP_OK, out)"
    and vA: "valid_handles (fst (state_start env))"
    and vB: "valid_handles (fst (state_end env))"
  shows "distinct (List.map_filter usage_end out)
       \<and> distinct (List.map_filter usage_start out)
       \<and> (\<forall>i k n t p. Usage i k n t p \<in> set out \<longrightarrow>
             i < length (fst (state_start env)) \<and> k < length (fst (state_end env)) \<and>
             xHandle (fst (state_start env) ! i) = xHandle (fst (state_end env) ! k))
       \<and> List.map_filter deleted_at out =
             filter (\<lambda>x. x \<notin> set (List.map_filter usage_start out)) [0..<length (fst (state_start env))]
       \<and> List.map_filter created_at out =
             filter (\<lambda>y. y \<notin> set (List.map_filter usage_end out)) [0..<length (fst (state_end env))]
       \<and> set (List.map_filter deleted_at out) \<inter> set (List.map_filter usage_start out) = {}
       \<and> set (List.map_filter created_at out) \<inter> set (List.map_filter usage_end out) = {}
       \<and> (\<forall>x<length (fst (state_start env)). \<forall>y<length (fst (state_end env)).
             x \<notin> set (List.map_filter usage_start out) \<longrightarrow>
             y \<notin> set (List.map_filter usage_end out) \<longrightarrow>
             xHandle (fst (state_start env) ! x) \<noteq> xHandle (fst (state_end env) ! y))"
proof -
  let ?A = "fst (state_start env)" and ?B = "fst (state_end env)"
  let ?e = "snd (state_end env) - snd (state_start env)"
  from run obtain st' en' out' where
    loop: "match_loop ?e cores 0 ?A ?B [Header] = Inr (st', en', out')"
    and out: "out = out' @ deleted_lines st' @ created_lines en'"
    by (rule sampler_success_shape)
  have "match_inv ?A ?B ?e cores 0 ?A ?B [Header]"
    by (simp add: match_inv_def nulled_empty List.map_filter_def usage_ok_def)
  from match_loop_inv [OF loop this vA]
  have inv: "match_inv ?A ?B ?e cores (length ?A) st' en' out'" .
  let ?MA = "List.map_filter usage_start out'" and ?MB = "List.map_filter usage_end out'"
  from inv have st': "st' = nulled ?A (set ?MA)" and en': "en' = nulled ?B (set ?MB)"
    and dA: "distinct ?MA" and dB: "distinct ?MB"
    and ok: "\<forall>l\<in>set out'. usage_ok ?A ?B ?e cores l"
    and mx: "\<forall>x<length ?A. x \<notin> set ?MA \<longrightarrow>
               (\<forall>y<length ?B. y \<notin> set ?MB \<longrightarrow> xHandle (?A ! x) \<noteq> xHandle (?B ! y))"
    by (simp_all add: match_inv_def)
  have uA: "List.map_filter usage_start out = ?MA" and uB: "List.map_filter usage_end out = ?MB"
    by (simp_all add: out map_filter_append deleted_lines_projections created_lines_projections)
  have del: "List.map_filter deleted_at out = filter (\<lambda>x. x \<notin> set ?MA) [0..<length ?A]"
    using unmarked_nulled [OF vA, of "set ?MA"]
    by (simp add: out map_filter_append usage_ok_projections [OF ok] deleted_lines_projections
        created_lines_projections st')
  have cre: "List.map_filter created_at out = filter (\<lambda>y. y \<notin> set ?MB) [0..<length ?B]"
    using unmarked_nulled [OF vB, of "set ?MB"]
    by (simp add: out map_filter_append usage_ok_projections [OF ok] deleted_lines_projections
        created_lines_projections en')
  have lines: "i < length ?A \<and> k < length ?B \<and> xHandle (?A ! i) = xHandle (?B ! k)"
    if "Usage i k n t p \<in> set out" for i k n t p
  proof -
    from that have "Usage i k n t p \<in> set out'"
      by (auto simp: out deleted_lines_def created_lines_def)
    with ok have "usage_ok ?A ?B ?e cores (Usage i k n t p)" by blast
    then show ?thesis by (simp add: usage_ok_def)
  qed
  have disj: "set (List.map_filter deleted_at out) \<inter> set (List.map_filter usage_start out) = {}"
      "set (List.map_filter created_at out) \<inter> set (List.map_filter usage_end out) = {}"
    unfolding del cre uA uB by auto
  from dA dB lines del cre disj mx show ?thesis
    unfolding uA uB by blast
qed

theorem C9_matching_is_one_to_one_witness:
  "PrintTaskCpuUsage 1 spec_env =
     Inr (ESP_OK, [Header, Usage 0 0 ''task1'' 50 83, Usage 1 1 ''task2'' 40 66, Created 2 ''task3''])
   \<and> List.map_filter deleted_at
        [Header, Usage 0 0 ''task1'' 50 83, Usage 1 1 ''task2'' 40 66, Created 2 ''task3''] = []
   \<and> List.map_filter created_at
        [Header, Usage 0 0 ''task1'' 50 83, Usage 1 1 ''task2'' 40 66, Created 2 ''task3''] = [2]
   \<and> distinct (List.map_filter usage_end
        [Header, Usage 0 0 ''task1'' 50 83, Usage 1 1 ''task2'' 40 66, Created 2 ''task3''])"
proof -
  note C9_matching_is_one_to_one [OF spec_env_run valid_spec_env]
  then have
    "List.map_filter deleted_at
        [Header, Usage 0 0 ''task1'' 50 83, Usage 1 1 ''task2'' 40 66, Created 2 ''task3''] =
       filter (\<lambda>x. x \<notin> set (List.map_filter usage_start
          [Header, Usage 0 0 ''task1'' 50 83, Usage 1 1 ''task2'' 40 66, Created 2 ''task3'']))
          [0..<length (fst (state_start spec_env))]"
    "List.map_filter created_at
        [Header, Usage 0 0 ''task1'' 50 83, Usage 1 1 ''task2'' 40 66, Created 2 ''task3''] =
       filter (\<lambda>y. y \<notin> set (List.map_filter usage_end
          [Header, Usage 0 0 ''task1'' 50 83, Usage 1 1 ''task2'' 40 66, Created 2 ''task3'']))
          [0..<length (fst (state_end spec_env))]"
    "distinct (List.map_filter usage_end
        [Header, Usage 0 0 ''task1'' 50 83, Usage 1 1 ''task2'' 40 66, Created 2 ''task3''])"
    by blast+
  moreover have "length (fst (state_start spec_env)) = 2" "length (fst (state_end spec_env)) = 3"
    by (simp_all add: spec_env_def)
  ultimately show ?thesis
    by (simp add: spec_env_run List.map_filter_def upt_conv_Cons)
qed

end
